theory Spec2Isabelle
  imports Main "HOL-Library.Word"
begin

section \<open>JavaScript values\<close>

text \<open>
  A JavaScript string is a sequence of UTF-16 code units. String constants of the source
  are written as Isabelle string literals and converted with \<open>js\<close>.
\<close>

type_synonym jsstring = "16 word list"

definition js :: "string \<Rightarrow> jsstring" where
  "js cs = map of_char cs"

text \<open>
  An exception value: \<open>err_name\<close> is its \<open>name\<close> property, \<open>err_message\<close> its
  \<open>message\<close>; \<open>media_error_code\<close> is \<open>Some code\<close> exactly when the value is an instance
  of \<open>window.MediaError\<close>.
\<close>

datatype jserror = JsError (err_name: jsstring) (err_message: jsstring) (media_error_code: "nat option")

text \<open>How an awaited promise settles, and how an \<open>async\<close> function completes.\<close>

datatype 'a outcome = Resolved 'a | Rejected jserror

datatype 'a completion = Returned 'a | Raised jserror

section \<open>External collaborators\<close>

record room =
  room_id :: jsstring
  isArchived :: bool

record call =
  call_id :: jsstring
  roomId :: jsstring
  hasJoined :: bool

text \<open>
  Objects created by the view model. The number is the identity of the object
  (two \<open>CallViewModel\<close>s for the same call are different objects).
\<close>

datatype child =
    ComposerViewModel
  | ArchivedViewModel
  | PickSubscription
  | CallViewModel nat call
  | TimelineViewModel nat

datatype content = Content (msgtype: jsstring) (body: jsstring)

text \<open>Files and media as the platform hands them out.\<close>

record blob =
  blob_id :: nat
  mimeType :: jsstring


record image =
  image_blob :: blob
  maxDimension :: int

record video =
  video_blob :: blob
  video_maxDimension :: int
  duration :: int

text \<open>
  Modelled from the spec: \<open>imageToInfo\<close> (\<open>../common.js\<close>) and the result of
  \<open>room.createAttachment\<close> are not among the source files; an info is kept as the medium
  it describes with the thumbnail added to it, an attachment as the blob and the file name
  it was created from. Below them, the content of a media event.
\<close>

datatype info = ImageInfo image "image option" | VideoInfo video "image option"

datatype attachment = Attachment blob jsstring

datatype media_content =
  MediaContent (media_body: jsstring) (media_msgtype: jsstring) (media_info: "info option")

text \<open>
  Everything the view model does to the outside, in the order it is done. \<open>ClearUnread t\<close>
  carries the timeout whose elapse led to the call (the room does not see it).
  \<open>SendEvent\<close> is \<open>room.sendEvent\<close> called with a type and a content, \<open>SendMedia\<close> the
  same method called with attachments as third argument.
\<close>

datatype effect =
    Created child
  | Disposed child
  | EmitChange "jsstring option"
  | ComposerEmitChange
  | RoomOn
  | RoomOff
  | RoomRelease
  | OpenTimeline
  | ClearUnread nat
  | CreateTimeout nat
  | AbortTimeout nat
  | SendEvent jsstring content
  | Reply nat jsstring jsstring
  | ReportError jserror
  | UnhandledRejection jserror
  | SendMedia jsstring media_content "(jsstring \<times> attachment) list"
  | Alert jsstring
  | ConsoleError jserror
  | DisposeImage image

section \<open>The state of a RoomViewModel\<close>

text \<open>
  The clock's view of a timeout, and where the invocation of
  \<open>_clearUnreadAfterDelay\<close> that created it is suspended.
\<close>

datatype tstatus = Pending | Elapsed | Aborted

datatype phase = AwaitElapsed | AwaitClearUnread | Finished

record rvm =
  room :: room
  timelineVM :: "child option"
  composerVM :: child
  clearUnreadTimout :: "nat option"
  callViewModel :: "child option"
  disposables :: "child list"
  isDisposed :: bool
  loading :: nat
  timers :: "(tstatus \<times> phase) list"
  heap_next :: nat
  trace :: "effect list"

definition perform :: "effect \<Rightarrow> rvm \<Rightarrow> rvm" where
  "perform e s = s\<lparr>trace := trace s @ [e]\<rparr>"

subsection \<open>The ViewModel base class\<close>

text \<open>
  Modelled from the spec: \<open>ViewModel.track\<close>, \<open>ViewModel.disposeTracked\<close> and
  \<open>ViewModel.dispose\<close> are not among the source files. The spec (4.1) gives their
  contract: \<open>track(child)\<close> returns the child as handle; \<open>disposeTracked(handle)\<close>
  disposes the child immediately, untracks it and returns null; \<open>dispose()\<close> disposes all
  still-tracked children in reverse order of tracking and marks the object disposed. A
  handle that is absent or not tracked (any more) is left alone: double dispose is a no-op.
\<close>

definition track :: "child \<Rightarrow> rvm \<Rightarrow> rvm" where
  "track c s = s\<lparr>disposables := disposables s @ [c]\<rparr>"

definition disposeTracked :: "child option \<Rightarrow> rvm \<Rightarrow> rvm" where
  "disposeTracked h s =
     (case h of
        None \<Rightarrow> s
      | Some c \<Rightarrow>
          if c \<in> set (disposables s)
          then perform (Disposed c) (s\<lparr>disposables := remove1 c (disposables s)\<rparr>)
          else s)"

definition super_dispose :: "rvm \<Rightarrow> rvm" where
  "super_dispose s =
     s\<lparr>disposables := [], isDisposed := True,
       trace := trace s @ map Disposed (rev (disposables s))\<rparr>"

text \<open>
  Modelled from the spec: \<open>ErrorReportViewModel.reportError\<close> is not among the source
  files; it records the error without throwing (spec 6).
\<close>

definition reportError :: "jserror \<Rightarrow> rvm \<Rightarrow> rvm" where
  "reportError e s = perform (ReportError e) s"

definition emitChange :: "jsstring option \<Rightarrow> rvm \<Rightarrow> rvm" where
  "emitChange field s = perform (EmitChange field) s"

subsection \<open>\<open>_setupCallViewModel\<close>\<close>

text \<open>
  Modelled from the spec: \<open>CallViewModel\<close> is not among the source files; its \<open>id\<close> is
  the identity of the call it was created for. Other objects have no call identity.
\<close>

fun vm_id :: "child \<Rightarrow> jsstring option" where
  "vm_id (CallViewModel n c) = Some (call_id c)"
| "vm_id _ = None"

definition new_CallViewModel :: "call \<Rightarrow> rvm \<Rightarrow> child \<times> rvm" where
  "new_CallViewModel c s =
     (let vm = CallViewModel (heap_next s) c
      in (vm, perform (Created vm) (s\<lparr>heap_next := heap_next s + 1\<rparr>)))"

text \<open>The filter given to \<open>calls.filterValues\<close> (lines 55 to 57).\<close>

definition call_filter :: "rvm \<Rightarrow> call \<Rightarrow> bool" where
  "call_filter s c = (roomId c = room_id (room s) \<and> hasJoined c)"

text \<open>
  \<open>call && this._callViewModel && call.id === this._callViewModel.id\<close> (line 60).
\<close>

definition same_call :: "call option \<Rightarrow> child option \<Rightarrow> bool" where
  "same_call c v =
     (case c of
        None \<Rightarrow> False
      | Some c' \<Rightarrow> (case v of None \<Rightarrow> False | Some vm \<Rightarrow> Some (call_id c') = vm_id vm))"

text \<open>The callback subscribed to the pick observable (lines 59 to 68).\<close>

definition on_pick :: "call option \<Rightarrow> rvm \<Rightarrow> rvm" where
  "on_pick c s =
     (if same_call c (callViewModel s) then s
      else
        let s1 = (disposeTracked (callViewModel s) s)\<lparr>callViewModel := None\<rparr>;
            s2 = (case c of
                    None \<Rightarrow> s1
                  | Some c' \<Rightarrow>
                      (case new_CallViewModel c' s1 of
                         (vm, s') \<Rightarrow> (track vm s')\<lparr>callViewModel := Some vm\<rparr>))
        in emitChange (Some (js ''callViewModel'')) s2)"

text \<open>
  \<open>_setupCallViewModel\<close> (lines 52 to 74); \<open>picked\<close> is what \<open>this._callObservable.get()\<close>
  returns at line 69. Subscribing does not run the callback.
\<close>

definition setupCallViewModel :: "call option \<Rightarrow> rvm \<Rightarrow> rvm" where
  "setupCallViewModel picked s =
     (let s1 = track PickSubscription
                 (perform (Created PickSubscription) (s\<lparr>callViewModel := None\<rparr>))
      in case picked of
           None \<Rightarrow> s1
         | Some c \<Rightarrow>
             (case new_CallViewModel c s1 of
                (vm, s') \<Rightarrow> (track vm s')\<lparr>callViewModel := Some vm\<rparr>))"

text \<open>The constructor (lines 33 to 50).\<close>

definition constructor :: "room \<Rightarrow> call option \<Rightarrow> rvm" where
  "constructor r picked =
     (let composer = (if isArchived r then ArchivedViewModel else ComposerViewModel);
          s = \<lparr>room = r, timelineVM = None, composerVM = composer,
               clearUnreadTimout = None, callViewModel = None, disposables = [],
               isDisposed = False, loading = 0, timers = [], heap_next = 0,
               trace = [Created composer]\<rparr>
      in setupCallViewModel picked s)"

subsection \<open>The deferred unread-clear\<close>

text \<open>
  Modelled from the spec: the clock and its \<open>Timeout\<close> are not among the source files.
  By the spec (4.4) \<open>elapsed()\<close> resolves once the time has elapsed, or fails with the
  abort condition if \<open>abort()\<close> is called before that; \<open>abort()\<close> is idempotent and does
  nothing to a timeout that has elapsed. The abort condition is the exception that line
  107 recognises by its name.
\<close>

definition AbortError :: jserror where
  "AbortError = JsError (js ''AbortError'') [] None"

definition createTimeout :: "rvm \<Rightarrow> nat \<times> rvm" where
  "createTimeout s =
     (let t = length (timers s)
      in (t, perform (CreateTimeout t) (s\<lparr>timers := timers s @ [(Pending, AwaitElapsed)]\<rparr>)))"

definition abort_timeout :: "nat \<Rightarrow> rvm \<Rightarrow> rvm" where
  "abort_timeout t s =
     perform (AbortTimeout t)
       (if t < length (timers s) \<and> fst (timers s ! t) = Pending
        then s\<lparr>timers := (timers s)[t := (Aborted, snd (timers s ! t))]\<rparr>
        else s)"

definition timer_fires :: "nat \<Rightarrow> rvm \<Rightarrow> rvm" where
  "timer_fires t s =
     (if t < length (timers s) \<and> fst (timers s ! t) = Pending
      then s\<lparr>timers := (timers s)[t := (Elapsed, snd (timers s ! t))]\<rparr>
      else s)"

definition set_phase :: "nat \<Rightarrow> phase \<Rightarrow> rvm \<Rightarrow> rvm" where
  "set_phase t p s = s\<lparr>timers := (timers s)[t := (fst (timers s ! t), p)]\<rparr>"

text \<open>
  \<open>_clearUnreadAfterDelay\<close> (lines 97 to 111) runs in three pieces, cut at its two
  \<open>await\<close>s. The first piece runs when the function is called: the guard, the new timeout,
  and the suspension on \<open>elapsed()\<close>.
\<close>

definition clearUnreadAfterDelay :: "rvm \<Rightarrow> rvm" where
  "clearUnreadAfterDelay s =
     (if isArchived (room s) \<or> clearUnreadTimout s \<noteq> None then s
      else case createTimeout s of (t, s') \<Rightarrow> s'\<lparr>clearUnreadTimout := Some t\<rparr>)"

text \<open>The \<open>catch\<close> block (lines 106 to 110).\<close>

definition catch_clearUnread :: "jserror \<Rightarrow> unit completion" where
  "catch_clearUnread err = (if err_name err \<noteq> js ''AbortError'' then Raised err else Returned ())"

text \<open>
  The second piece runs when \<open>elapsed()\<close> of timeout \<open>t\<close> has settled (line 103 to 104):
  it calls \<open>clearUnread()\<close> and suspends again (no completion yet), or ends in the
  \<open>catch\<close> block.
\<close>

definition after_elapsed :: "nat \<Rightarrow> unit outcome \<Rightarrow> rvm \<Rightarrow> unit completion option \<times> rvm" where
  "after_elapsed t r s =
     (case r of
        Resolved _ \<Rightarrow> (None, set_phase t AwaitClearUnread (perform (ClearUnread t) s))
      | Rejected err \<Rightarrow> (Some (catch_clearUnread err), set_phase t Finished s))"

text \<open>The third piece runs when \<open>clearUnread()\<close> has settled (line 104 to 105).\<close>

definition after_clearUnread :: "nat \<Rightarrow> unit outcome \<Rightarrow> rvm \<Rightarrow> unit completion \<times> rvm" where
  "after_clearUnread t r s =
     (case r of
        Resolved _ \<Rightarrow> (Returned (), set_phase t Finished (s\<lparr>clearUnreadTimout := None\<rparr>))
      | Rejected err \<Rightarrow> (catch_clearUnread err, set_phase t Finished s))"

text \<open>
  Nobody awaits the promise of \<open>_clearUnreadAfterDelay\<close> (lines 94 and 114): an exception
  it ends with is an unhandled rejection.
\<close>

definition unawaited :: "unit completion \<Rightarrow> rvm \<Rightarrow> rvm" where
  "unawaited c s = (case c of Returned _ \<Rightarrow> s | Raised err \<Rightarrow> perform (UnhandledRejection err) s)"

definition focus :: "rvm \<Rightarrow> rvm" where
  "focus s = clearUnreadAfterDelay s"

subsection \<open>\<open>load\<close> and \<open>dispose\<close>\<close>

text \<open>
  \<open>load\<close> (lines 76 to 95) is cut at its \<open>await\<close>: \<open>load_begin\<close> runs up to the call of
  \<open>openTimeline()\<close>, \<open>load_resume\<close> runs once that has settled.
\<close>

definition load_begin :: "rvm \<Rightarrow> rvm" where
  "load_begin s = (perform OpenTimeline (perform RoomOn s))\<lparr>loading := loading s + 1\<rparr>"

definition new_TimelineViewModel :: "rvm \<Rightarrow> child \<times> rvm" where
  "new_TimelineViewModel s =
     (let vm = TimelineViewModel (heap_next s)
      in (vm, perform (Created vm) (s\<lparr>heap_next := heap_next s + 1\<rparr>)))"

definition load_resume :: "unit outcome \<Rightarrow> rvm \<Rightarrow> rvm" where
  "load_resume r s =
     clearUnreadAfterDelay
       (case r of
          Resolved timeline \<Rightarrow>
            (case new_TimelineViewModel s of
               (vm, s') \<Rightarrow>
                 emitChange (Some (js ''timelineViewModel'')) ((track vm s')\<lparr>timelineVM := Some vm\<rparr>))
        | Rejected error \<Rightarrow> reportError error s)"

text \<open>\<open>dispose\<close> (lines 117 to 127).\<close>

definition dispose :: "rvm \<Rightarrow> rvm" where
  "dispose s =
     (let s1 = perform RoomOff (super_dispose s);
          s2 = (if isArchived (room s1) then perform RoomRelease s1 else s1)
      in case clearUnreadTimout s2 of
           None \<Rightarrow> s2
         | Some t \<Rightarrow> (abort_timeout t s2)\<lparr>clearUnreadTimout := None\<rparr>)"

subsection \<open>\<open>_sendMessage\<close>\<close>

text \<open>
  \<open>String.prototype.startsWith\<close>, \<open>substr\<close> with one argument and \<open>trim\<close>, on code
  units. \<open>trim\<close> removes the white space and line terminators of ECMAScript from both
  ends.
\<close>

definition startsWith :: "jsstring \<Rightarrow> jsstring \<Rightarrow> bool" where
  "startsWith s p = (take (length p) s = p)"

definition substr :: "jsstring \<Rightarrow> nat \<Rightarrow> jsstring" where
  "substr s n = drop n s"

definition js_whitespace :: "16 word \<Rightarrow> bool" where
  "js_whitespace c =
     (c \<in> {0x9, 0xA, 0xB, 0xC, 0xD, 0x20, 0xA0, 0x1680, 0x2028, 0x2029, 0x202F, 0x205F,
           0x3000, 0xFEFF}
      \<or> (0x2000 \<le> c \<and> c \<le> 0x200A))"

definition trim :: "jsstring \<Rightarrow> jsstring" where
  "trim s = rev (dropWhile js_whitespace (rev (dropWhile js_whitespace s)))"

text \<open>
  \<open>_sendMessage\<close> (lines 197 to 217). \<open>replyingTo\<close> is the entry replied to, if any;
  \<open>sent\<close> is how the awaited \<open>reply\<close> or \<open>sendEvent\<close> call settles. The result is the
  completion of the function and the state it leaves.
\<close>

definition sendMessage :: "jsstring \<Rightarrow> nat option \<Rightarrow> unit outcome \<Rightarrow> rvm \<Rightarrow> bool completion \<times> rvm" where
  "sendMessage message replyingTo sent s =
     (if \<not> isArchived (room s) \<and> message \<noteq> [] then
        let (msgtype, message') =
              (if startsWith message (js ''/me '')
               then (js ''m.emote'', trim (substr message 4))
               else (js ''m.text'', message));
            s1 = (case replyingTo of
                    Some entry \<Rightarrow> perform (Reply entry msgtype message') s
                  | None \<Rightarrow> perform (SendEvent (js ''m.room.message'') (Content msgtype message')) s)
        in case sent of
             Rejected error \<Rightarrow> (Returned False, reportError error s1)
           | Resolved _ \<Rightarrow> (Returned True, s1)
      else (Returned False, s))"

subsection \<open>\<open>_pickAndSendFile\<close>, \<open>_pickAndSendPicture\<close> and \<open>_pickAndSendVideo\<close>\<close>


datatype jsval = JUndefined | JBool bool

text \<open>
  A piece of code that runs on the state and either throws or yields a value, and the
  ways to put such pieces in sequence: \<open>await\<close> throws the rejection of a promise,
  \<open>call\<close> the exception of a method.
\<close>

type_synonym 'a action = "rvm \<Rightarrow> (jserror + 'a) \<times> rvm"

definition ret :: "'a \<Rightarrow> 'a action" where
  "ret x s = (Inr x, s)"

definition throw :: "jserror \<Rightarrow> 'a action" where
  "throw e s = (Inl e, s)"



definition call :: "jserror + 'a \<Rightarrow> 'a action" where
  "call r = (case r of Inr x \<Rightarrow> ret x | Inl e \<Rightarrow> throw e)"

definition effect :: "effect \<Rightarrow> unit action" where
  "effect e s = (Inr (), perform e s)"














subsection \<open>The life of a view model\<close>

text \<open>
  What can happen to a view model after its construction: a method is called
  (\<open>load\<close>, \<open>focus\<close>, \<open>dispose\<close>), the pick observable emits, the clock fires a timeout, or
  a suspended \<open>async\<close> function is resumed because what it awaits has settled.
\<close>

datatype event =
    CallLoad
  | OpenTimelineSettled "unit outcome"
  | CallFocus
  | TimerFires nat
  | ElapsedSettled nat
  | ClearUnreadSettled nat "unit outcome"
  | PickEmits "call option"
  | CallDispose

fun step :: "event \<Rightarrow> rvm \<Rightarrow> rvm" where
  "step CallLoad s = load_begin s"
| "step (OpenTimelineSettled r) s =
     (if 0 < loading s then load_resume r (s\<lparr>loading := loading s - 1\<rparr>) else s)"
| "step CallFocus s = focus s"
| "step (TimerFires t) s = timer_fires t s"
| "step (ElapsedSettled t) s =
     (if t < length (timers s) \<and> snd (timers s ! t) = AwaitElapsed \<and> fst (timers s ! t) \<noteq> Pending
      then case after_elapsed t (if fst (timers s ! t) = Elapsed then Resolved () else Rejected AbortError) s of
             (None, s') \<Rightarrow> s'
           | (Some c, s') \<Rightarrow> unawaited c s'
      else s)"
| "step (ClearUnreadSettled t r) s =
     (if t < length (timers s) \<and> snd (timers s ! t) = AwaitClearUnread
      then case after_clearUnread t r s of (c, s') \<Rightarrow> unawaited c s'
      else s)"
| "step (PickEmits c) s = (if PickSubscription \<in> set (disposables s) then on_pick c s else s)"
| "step CallDispose s = dispose s"

fun run :: "event list \<Rightarrow> rvm \<Rightarrow> rvm" where
  "run [] s = s"
| "run (e # es) s = run es (step e s)"

section \<open>Observations on traces\<close>

text \<open>The errors passed to \<open>reportError\<close>, in order.\<close>

definition reported :: "effect list \<Rightarrow> jserror list" where
  "reported tr = concat (map (\<lambda>e. case e of ReportError err \<Rightarrow> [err] | _ \<Rightarrow> []) tr)"

text \<open>The message type and body of what was sent, through \<open>sendEvent\<close> or \<open>reply\<close>.\<close>

fun sent_message :: "effect \<Rightarrow> (jsstring \<times> jsstring) list" where
  "sent_message (SendEvent ty c) = [(msgtype c, body c)]"
| "sent_message (Reply entry mt b) = [(mt, b)]"
| "sent_message _ = []"

definition sent_messages :: "effect list \<Rightarrow> (jsstring \<times> jsstring) list" where
  "sent_messages tr = concat (map sent_message tr)"

text \<open>
  In the words of the claim: \<open>b\<close> is \<open>r\<close> with the surrounding white space removed, that
  is, \<open>r\<close> is \<open>b\<close> between two runs of white space, and \<open>b\<close> neither starts nor ends with
  white space.
\<close>

definition surrounding_whitespace_removed :: "jsstring \<Rightarrow> jsstring \<Rightarrow> bool" where
  "surrounding_whitespace_removed r b =
     (\<exists>pre post. r = pre @ b @ post \<and> list_all js_whitespace pre \<and> list_all js_whitespace post
        \<and> (b \<noteq> [] \<longrightarrow> \<not> js_whitespace (hd b) \<and> \<not> js_whitespace (last b)))"

text \<open>The contents sent with attachments, and the errors written to the console.\<close>

definition media_sends :: "effect list \<Rightarrow> media_content list" where
  "media_sends tr = concat (map (\<lambda>e. case e of SendMedia ty c a \<Rightarrow> [c] | _ \<Rightarrow> []) tr)"

definition console_errors :: "effect list \<Rightarrow> jserror list" where
  "console_errors tr = concat (map (\<lambda>e. case e of ConsoleError err \<Rightarrow> [err] | _ \<Rightarrow> []) tr)"

section \<open>Example inputs\<close>

definition open_room :: room where
  "open_room = \<lparr>room_id = js ''!room'', isArchived = False\<rparr>"

definition archived_room :: room where
  "archived_room = \<lparr>room_id = js ''!room'', isArchived = True\<rparr>"

definition call_a :: call where
  "call_a = \<lparr>call_id = js ''a'', roomId = js ''!room'', hasJoined = True\<rparr>"

definition call_b :: call where
  "call_b = \<lparr>call_id = js ''b'', roomId = js ''!room'', hasJoined = True\<rparr>"

definition network_error :: jserror where
  "network_error = JsError (js ''ConnectionError'') (js ''offline'') None"

text \<open>
  The call view models that exist after a trace: created and not yet disposed.
\<close>

fun is_call :: "child \<Rightarrow> bool" where
  "is_call (CallViewModel n c) = True"
| "is_call _ = False"

fun alive_step :: "child list \<Rightarrow> effect \<Rightarrow> child list" where
  "alive_step live (Created c) = (if is_call c then live @ [c] else live)"
| "alive_step live (Disposed c) = removeAll c live"
| "alive_step live _ = live"

definition alive_calls :: "effect list \<Rightarrow> child list" where
  "alive_calls tr = foldl alive_step [] tr"

text \<open>At every moment of the trace, at most one call view model exists.\<close>

definition at_most_one_call :: "effect list \<Rightarrow> bool" where
  "at_most_one_call tr = (\<forall>n. length (alive_calls (take n tr)) \<le> 1)"

text \<open>
  The invariant behind it: a call view model that exists is the one in the
  \<open>_callViewModel\<close> field, and it is tracked.
\<close>

definition calls_inv :: "rvm \<Rightarrow> bool" where
  "calls_inv s =
     (at_most_one_call (trace s) \<and>
      (\<forall>vm \<in> set (alive_calls (trace s)). callViewModel s = Some vm \<and> vm \<in> set (disposables s)))"

text \<open>The same, computed along the trace from the call view models that exist at its start.\<close>

fun one_from :: "child list \<Rightarrow> effect list \<Rightarrow> bool" where
  "one_from live [] = (length live \<le> 1)"
| "one_from live (e # es) = (length live \<le> 1 \<and> one_from (alive_step live e) es)"


text \<open>
  Bookkeeping for the children of a view model: which object identities are in use,
  which children are composers (created by the constructor and never tracked), and how
  often a child has been disposed in a trace.
\<close>

fun allocated :: "nat \<Rightarrow> child \<Rightarrow> bool" where
  "allocated h (CallViewModel n c) = (n < h)"
| "allocated h (TimelineViewModel n) = (n < h)"
| "allocated h _ = True"

fun is_composer :: "child \<Rightarrow> bool" where
  "is_composer ComposerViewModel = True"
| "is_composer ArchivedViewModel = True"
| "is_composer _ = False"

definition disposals :: "effect list \<Rightarrow> child \<Rightarrow> nat" where
  "disposals tr c = count_list tr (Disposed c)"

text \<open>
  The invariant of tracking: the tracked children are distinct, were created, have not
  been disposed and are not the composer; every child that was created is the composer,
  or still tracked, or disposed exactly once; the timeline and call fields hold created
  children; the timeout reference, when set, is a timeout of the clock.
\<close>

definition tracked_inv :: "rvm \<Rightarrow> bool" where
  "tracked_inv s =
     (distinct (disposables s) \<and>
      is_composer (composerVM s) \<and>
      (\<forall>c \<in> set (disposables s). Created c \<in> set (trace s) \<and> disposals (trace s) c = 0 \<and> \<not> is_composer c) \<and>
      (\<forall>c. Created c \<in> set (trace s) \<longrightarrow>
           allocated (heap_next s) c \<and>
           (is_composer c \<or> c \<in> set (disposables s) \<or> disposals (trace s) c = 1)) \<and>
      (\<forall>c. disposals (trace s) c \<le> 1) \<and>
      (\<forall>c. 0 < disposals (trace s) c \<longrightarrow> Created c \<in> set (trace s) \<and> \<not> is_composer c) \<and>
      (\<forall>v. timelineVM s = Some v \<or> callViewModel s = Some v \<longrightarrow>
           Created v \<in> set (trace s) \<and> \<not> is_composer v) \<and>
      (\<forall>t. clearUnreadTimout s = Some t \<longrightarrow> t < length (timers s)))"


text \<open>
  A timeout that was aborted while pending, and the invariant of the deferred
  unread-clear: the invocation suspended on a pending timeout awaits its elapse, and only
  for a timeout that has elapsed is \<open>clearUnread()\<close> awaited or called.
\<close>

definition is_aborted :: "nat \<Rightarrow> rvm \<Rightarrow> bool" where
  "is_aborted t s = (t < length (timers s) \<and> fst (timers s ! t) = Aborted)"

definition abort_inv :: "rvm \<Rightarrow> bool" where
  "abort_inv s =
     ((\<forall>t < length (timers s).
         (fst (timers s ! t) = Pending \<longrightarrow> snd (timers s ! t) = AwaitElapsed) \<and>
         (fst (timers s ! t) \<noteq> Elapsed \<longrightarrow>
            snd (timers s ! t) \<noteq> AwaitClearUnread \<and> ClearUnread t \<notin> set (trace s))) \<and>
      (\<forall>t. length (timers s) \<le> t \<longrightarrow> ClearUnread t \<notin> set (trace s)))"


text \<open>
  The timeouts of the clock by number, those that are pending, and the pending ones
  listed.
\<close>

definition timer :: "rvm \<Rightarrow> nat \<Rightarrow> (tstatus \<times> phase) option" where
  "timer s t = (if t < length (timers s) then Some (timers s ! t) else None)"

definition is_pending :: "rvm \<Rightarrow> nat \<Rightarrow> bool" where
  "is_pending s t = (t < length (timers s) \<and> fst (timers s ! t) = Pending)"

definition pending :: "rvm \<Rightarrow> nat list" where
  "pending s = filter (is_pending s) [0..<length (timers s)]"

text \<open>
  The life of a view model as the spec describes it (3 and 4.5): \<open>load()\<close> is called at
  most once, and neither \<open>load()\<close> nor \<open>focus()\<close> is called after \<open>dispose()\<close>. What
  the clock, the room and the pick observable do is not restricted.
\<close>

fun admissible :: "rvm \<Rightarrow> event \<Rightarrow> bool" where
  "admissible s CallFocus = (\<not> isDisposed s)"
| "admissible s CallLoad = (\<not> isDisposed s \<and> RoomOn \<notin> set (trace s))"
| "admissible s _ = True"

fun lifecycle :: "rvm \<Rightarrow> event list \<Rightarrow> bool" where
  "lifecycle s [] = True"
| "lifecycle s (e # es) = (admissible s e \<and> lifecycle (step e s) es)"

text \<open>
  The invariant of the unread-clear timeouts, in four parts: at most one \<open>load()\<close> is
  suspended; a pending timeout is awaited, and \<open>clearUnread()\<close> is awaited only after the
  elapse; before \<open>dispose()\<close>, an invocation that has not finished belongs to the timeout
  in \<open>_clearUnreadTimout\<close>; after \<open>dispose()\<close>, at most one timeout is pending, and none
  while \<open>load()\<close> is still suspended.
\<close>

definition inv_load :: "rvm \<Rightarrow> bool" where
  "inv_load s = (loading s \<le> 1 \<and> (0 < loading s \<longrightarrow> RoomOn \<in> set (trace s)))"

definition inv_phase :: "rvm \<Rightarrow> bool" where
  "inv_phase s =
     (\<forall>t st ph. timer s t = Some (st, ph) \<longrightarrow>
        (st = Pending \<longrightarrow> ph = AwaitElapsed) \<and> (ph = AwaitClearUnread \<longrightarrow> st = Elapsed))"

definition inv_live :: "rvm \<Rightarrow> bool" where
  "inv_live s =
     (\<not> isDisposed s \<longrightarrow>
        (\<forall>t st ph. timer s t = Some (st, ph) \<and> ph \<noteq> Finished \<longrightarrow> clearUnreadTimout s = Some t))"

definition inv_post :: "rvm \<Rightarrow> bool" where
  "inv_post s =
     (isDisposed s \<longrightarrow>
        (\<forall>t u. is_pending s t \<and> is_pending s u \<longrightarrow> t = u) \<and>
        (0 < loading s \<longrightarrow> (\<forall>t. \<not> is_pending s t)))"

definition timer_inv :: "rvm \<Rightarrow> bool" where
  "timer_inv s = (inv_load s \<and> inv_phase s \<and> inv_live s \<and> inv_post s)"


subsection \<open>The call collection and the pick observable\<close>

text \<open>
  Modelled from the spec: the observable map of calls, its \<open>filterValues\<close> and
  \<open>PickMapObservableValue\<close> are not among the source files. By the spec (3 and 4.3) the
  collection maps unique keys to calls and reports insert, remove and update events; an
  insert of a key that is present and a remove or update of a key that is absent change
  nothing and report nothing. The collection is kept as a list of key and call pairs with
  distinct keys.
\<close>

type_synonym 'k calls = "('k \<times> call) list"

datatype 'k mutation = Insert 'k call | Remove 'k | Update 'k call

definition del :: "'k \<Rightarrow> 'k calls \<Rightarrow> 'k calls" where
  "del k xs = filter (\<lambda>(k', v). k' \<noteq> k) xs"

definition upd :: "'k \<Rightarrow> call \<Rightarrow> 'k calls \<Rightarrow> 'k calls" where
  "upd k v xs = (k, v) # del k xs"

text \<open>
  Modelled from the spec: by 4.3 the arbitration keeps a working set of the visible pairs
  and the key of the current pick. On insert, an entry that passes the filter is added,
  and becomes the pick if there is no pick or its key is lower. On remove, the entry
  leaves the working set, and if it was the pick, the pick is recomputed as the lowest key
  that remains. On update the filter is evaluated again: an entry that starts to fail is
  removed, one that starts to pass is inserted, and one that still passes has its value
  replaced. The value of the observable is the call of the pick.
\<close>

record 'k pick =
  working :: "'k calls"
  pick_key :: "'k option"

definition min_key :: "('k::linorder) calls \<Rightarrow> 'k option" where
  "min_key xs = (if xs = [] then None else Some (Min (set (map fst xs))))"

definition pick_insert :: "(call \<Rightarrow> bool) \<Rightarrow> ('k::linorder) \<Rightarrow> call \<Rightarrow> 'k pick \<Rightarrow> 'k pick" where
  "pick_insert P k v st =
     (if P v
      then st\<lparr>working := upd k v (working st),
              pick_key := (case pick_key st of
                             None \<Rightarrow> Some k
                           | Some p \<Rightarrow> if k < p then Some k else Some p)\<rparr>
      else st)"

definition pick_remove :: "('k::linorder) \<Rightarrow> 'k pick \<Rightarrow> 'k pick" where
  "pick_remove k st =
     (let w = del k (working st)
      in st\<lparr>working := w,
             pick_key := (if pick_key st = Some k then min_key w else pick_key st)\<rparr>)"

definition pick_update :: "(call \<Rightarrow> bool) \<Rightarrow> ('k::linorder) \<Rightarrow> call \<Rightarrow> 'k pick \<Rightarrow> 'k pick" where
  "pick_update P k v st =
     (let was = (map_of (working st) k \<noteq> None); now = P v
      in if was \<and> \<not> now then pick_remove k st
         else if \<not> was \<and> now then pick_insert P k v st
         else if was \<and> now then st\<lparr>working := upd k v (working st)\<rparr>
         else st)"

definition pick_get :: "'k pick \<Rightarrow> call option" where
  "pick_get st = (case pick_key st of None \<Rightarrow> None | Some k \<Rightarrow> map_of (working st) k)"

fun mutate :: "(call \<Rightarrow> bool) \<Rightarrow> ('k::linorder) calls \<times> 'k pick \<Rightarrow> 'k mutation \<Rightarrow> 'k calls \<times> 'k pick" where
  "mutate P (coll, st) (Insert k v) =
     (if map_of coll k = None then (upd k v coll, pick_insert P k v st) else (coll, st))"
| "mutate P (coll, st) (Remove k) =
     (if map_of coll k \<noteq> None then (del k coll, pick_remove k st) else (coll, st))"
| "mutate P (coll, st) (Update k v) =
     (if map_of coll k \<noteq> None then (upd k v coll, pick_update P k v st) else (coll, st))"

definition no_calls :: "('k::linorder) calls \<times> 'k pick" where
  "no_calls = ([], \<lparr>working = [], pick_key = None\<rparr>)"

text \<open>
  In the words of the claim: the call with the lowest key among the calls of the
  collection that satisfy the filter, and none if no call satisfies it.
\<close>

definition visible_keys :: "(call \<Rightarrow> bool) \<Rightarrow> 'k calls \<Rightarrow> 'k list" where
  "visible_keys P coll =
     filter (\<lambda>k. case map_of coll k of Some c \<Rightarrow> P c | None \<Rightarrow> False) (map fst coll)"

definition lowest_visible :: "(call \<Rightarrow> bool) \<Rightarrow> ('k::linorder) calls \<Rightarrow> call option" where
  "lowest_visible P coll =
     (if visible_keys P coll = [] then None else map_of coll (Min (set (visible_keys P coll))))"

text \<open>
  The invariant of the arbitration: the working set holds exactly the entries of the
  collection that pass the filter, and the pick is its lowest key.
\<close>

definition pick_inv :: "(call \<Rightarrow> bool) \<Rightarrow> ('k::linorder) calls \<times> 'k pick \<Rightarrow> bool" where
  "pick_inv P cs =
     ((\<forall>k. map_of (working (snd cs)) k
             = (case map_of (fst cs) k of Some c \<Rightarrow> if P c then Some c else None | None \<Rightarrow> None)) \<and>
      pick_key (snd cs) = min_key (working (snd cs)))"






section \<open>Theorems\<close>

text \<open>
  C3: when the pick observable delivers a call whose id is the id of the current call
  view model, the callback leaves the whole state as it was: nothing is disposed,
  nothing is created, no change is emitted, and the \<open>callViewModel\<close> field is the same.
\<close>

theorem on_pick_same_identity_noop:
  "callViewModel s = Some vm \<Longrightarrow> vm_id vm = Some (call_id c) \<Longrightarrow> on_pick (Some c) s = s"
  by (simp add: on_pick_def same_call_def)

theorem on_pick_same_identity_noop_witness:
  "callViewModel (constructor open_room (Some call_a)) = Some (CallViewModel 0 call_a) \<and>
   vm_id (CallViewModel 0 call_a) = Some (call_id call_a) \<and>
   on_pick (Some call_a) (constructor open_room (Some call_a)) = constructor open_room (Some call_a)"
proof -
  have a: "callViewModel (constructor open_room (Some call_a)) = Some (CallViewModel 0 call_a)"
    by (simp add: constructor_def setupCallViewModel_def new_CallViewModel_def track_def
        perform_def Let_def)
  have b: "vm_id (CallViewModel 0 call_a) = Some (call_id call_a)" by simp
  from a b on_pick_same_identity_noop [OF a b] show ?thesis by simp
qed

lemma reported_append [simp]: "reported (xs @ ys) = reported xs @ reported ys"
  by (simp add: reported_def)

lemma sent_messages_append [simp]: "sent_messages (xs @ ys) = sent_messages xs @ sent_messages ys"
  by (simp add: sent_messages_def)

lemma reported_single [simp]:
  "reported [ReportError e] = [e]" "reported [SendEvent ty c] = []" "reported [Reply n mt b] = []"
  by (simp_all add: reported_def)

lemma sent_messages_single [simp]:
  "sent_messages [ReportError e] = []" "sent_messages [SendEvent ty c] = [(msgtype c, body c)]"
  "sent_messages [Reply n mt b] = [(mt, b)]"
  by (simp_all add: sent_messages_def)

text \<open>
  C8: if the room is archived or the message is empty, \<open>_sendMessage\<close> returns false and
  leaves the state as it was, so neither \<open>sendEvent\<close> nor \<open>reportError\<close> is called.
  Otherwise exactly one message is sent (by \<open>sendEvent\<close>, or by \<open>reply\<close>); if that call
  fails, the error is reported and the result is false; if not, nothing is reported and
  the result is true.
\<close>

theorem sendMessage_outcome:
  "(isArchived (room s) \<or> message = [] \<longrightarrow>
      sendMessage message replyingTo sent s = (Returned False, s)) \<and>
   (\<not> isArchived (room s) \<and> message \<noteq> [] \<longrightarrow>
      length (sent_messages (trace (snd (sendMessage message replyingTo sent s))))
        = length (sent_messages (trace s)) + 1 \<and>
      (case sent of
         Rejected error \<Rightarrow>
           fst (sendMessage message replyingTo sent s) = Returned False \<and>
           reported (trace (snd (sendMessage message replyingTo sent s))) = reported (trace s) @ [error]
       | Resolved _ \<Rightarrow>
           fst (sendMessage message replyingTo sent s) = Returned True \<and>
           reported (trace (snd (sendMessage message replyingTo sent s))) = reported (trace s)))"
  by (auto simp: sendMessage_def reportError_def perform_def Let_def split: outcome.splits option.splits prod.splits)

theorem sendMessage_outcome_witness:
  "sendMessage (js ''hello'') None (Resolved ()) (constructor archived_room None)
     = (Returned False, constructor archived_room None) \<and>
   fst (sendMessage (js ''hello'') None (Rejected network_error) (constructor open_room None))
     = Returned False \<and>
   reported (trace (snd (sendMessage (js ''hello'') None (Rejected network_error)
                           (constructor open_room None))))
     = reported (trace (constructor open_room None)) @ [network_error] \<and>
   fst (sendMessage (js ''hello'') None (Resolved ()) (constructor open_room None)) = Returned True"
proof -
  have a: "isArchived (room (constructor archived_room None))"
    by (simp add: constructor_def setupCallViewModel_def track_def perform_def archived_room_def)
  have b: "\<not> isArchived (room (constructor open_room None))"
    by (simp add: constructor_def setupCallViewModel_def track_def perform_def open_room_def)
  have c: "js ''hello'' \<noteq> []" by (simp add: js_def)
  show ?thesis
    using a b c
      sendMessage_outcome [of "constructor archived_room None" "js ''hello''" None "Resolved ()"]
      sendMessage_outcome [of "constructor open_room None" "js ''hello''" None "Rejected network_error"]
      sendMessage_outcome [of "constructor open_room None" "js ''hello''" None "Resolved ()"]
    by simp
qed

lemma trim_removes_surrounding: "surrounding_whitespace_removed r (trim r)"
proof -
  let ?d = "dropWhile js_whitespace r"
  let ?b = "rev (dropWhile js_whitespace (rev ?d))"
  let ?post = "rev (takeWhile js_whitespace (rev ?d))"
  have "rev ?d = takeWhile js_whitespace (rev ?d) @ dropWhile js_whitespace (rev ?d)" by simp
  then have "rev (rev ?d) = rev (takeWhile js_whitespace (rev ?d) @ dropWhile js_whitespace (rev ?d))"
    by simp
  then have d: "?d = ?b @ ?post" by (simp only: rev_rev_ident rev_append)
  have r: "r = takeWhile js_whitespace r @ ?b @ ?post"
    using d takeWhile_dropWhile_id [of js_whitespace r] by simp
  have pre: "list_all js_whitespace (takeWhile js_whitespace r)"
    by (simp add: list_all_iff) (meson set_takeWhileD)
  have post: "list_all js_whitespace ?post"
    by (simp add: list_all_iff) (meson set_takeWhileD)
  have ends: "\<not> js_whitespace (hd ?b) \<and> \<not> js_whitespace (last ?b)" if ne: "?b \<noteq> []"
  proof
    have dne: "?d \<noteq> []"
    proof
      assume e: "?d = []"
      have "?b = []" by (simp only: e rev.simps dropWhile.simps)
      with ne show False by contradiction
    qed
    have "hd ?b = hd ?d" using d ne by (metis hd_append2)
    then show "\<not> js_whitespace (hd ?b)" using hd_dropWhile [OF dne] by simp
    from ne have "dropWhile js_whitespace (rev ?d) \<noteq> []" by simp
    then have "\<not> js_whitespace (hd (dropWhile js_whitespace (rev ?d)))" by (rule hd_dropWhile)
    then show "\<not> js_whitespace (last ?b)" using ne by (simp add: last_rev)
  qed
  show ?thesis
    unfolding surrounding_whitespace_removed_def trim_def
    using r pre post ends by blast
qed

lemma startsWith_split: "startsWith m p \<Longrightarrow> m = p @ substr m (length p)"
  by (metis append_take_drop_id startsWith_def substr_def)

text \<open>
  C10: on a room that is not archived, a non-empty message that starts with \<open>/me \<close> is
  sent with message type \<open>m.emote\<close> and, as body, the message without that prefix and
  without the surrounding white space; any other message is sent with type \<open>m.text\<close>
  and the body unchanged.
\<close>

theorem sendMessage_msgtype_and_body:
  assumes "\<not> isArchived (room s)" and "message \<noteq> []"
  shows "\<exists>mt b. sent_messages (trace (snd (sendMessage message replyingTo sent s)))
                  = sent_messages (trace s) @ [(mt, b)] \<and>
           (if startsWith message (js ''/me '')
            then mt = js ''m.emote'' \<and>
                 (\<exists>r. message = js ''/me '' @ r \<and> surrounding_whitespace_removed r b)
            else mt = js ''m.text'' \<and> b = message)"
proof (cases "startsWith message (js ''/me '')")
  case True
  have len: "length (js ''/me '') = 4" by (simp add: js_def)
  from startsWith_split [OF True] have m: "message = js ''/me '' @ substr message 4"
    by (simp only: len)
  have "sent_messages (trace (snd (sendMessage message replyingTo sent s)))
          = sent_messages (trace s) @ [(js ''m.emote'', trim (substr message 4))]"
    using assms True
    by (auto simp: sendMessage_def reportError_def perform_def Let_def split: outcome.splits option.splits)
  with m trim_removes_surrounding [of "substr message 4"] True show ?thesis by auto
next
  case False
  have "sent_messages (trace (snd (sendMessage message replyingTo sent s)))
          = sent_messages (trace s) @ [(js ''m.text'', message)]"
    using assms False
    by (auto simp: sendMessage_def reportError_def perform_def Let_def split: outcome.splits option.splits)
  with False show ?thesis by auto
qed


theorem sendMessage_msgtype_and_body_witness:
  "\<not> isArchived (room (constructor open_room None)) \<and> js ''/me  waves '' \<noteq> [] \<and>
   (\<exists>mt b. sent_messages (trace (snd (sendMessage (js ''/me  waves '') None (Resolved ())
                                        (constructor open_room None))))
             = sent_messages (trace (constructor open_room None)) @ [(mt, b)] \<and>
           (if startsWith (js ''/me  waves '') (js ''/me '')
            then mt = js ''m.emote'' \<and>
                 (\<exists>r. js ''/me  waves '' = js ''/me '' @ r \<and> surrounding_whitespace_removed r b)
            else mt = js ''m.text'' \<and> b = js ''/me  waves ''))"
proof -
  have a: "\<not> isArchived (room (constructor open_room None))"
    by (simp add: constructor_def setupCallViewModel_def track_def perform_def open_room_def)
  have b: "js ''/me  waves '' \<noteq> []" by (simp add: js_def)
  from a b sendMessage_msgtype_and_body [OF a b, of None "Resolved ()"] show ?thesis by blast
qed

lemma alive_calls_Nil [simp]: "alive_calls [] = []"
  by (simp add: alive_calls_def)

lemma alive_calls_append [simp]: "alive_calls (xs @ ys) = foldl alive_step (alive_calls xs) ys"
  by (simp add: alive_calls_def)

lemma alive_calls_Cons: "alive_calls (x # xs) = foldl alive_step (alive_step [] x) xs"
  by (simp add: alive_calls_def)

lemma one_from_take:
  "(\<forall>n. length (foldl alive_step live (take n tr)) \<le> 1) \<longleftrightarrow> one_from live tr"
proof (induction tr arbitrary: live)
  case Nil
  then show ?case by simp
next
  case (Cons e tr)
  have "(\<forall>n. length (foldl alive_step live (take n (e # tr))) \<le> 1)
          \<longleftrightarrow> length live \<le> 1 \<and> (\<forall>n. length (foldl alive_step (alive_step live e) (take n tr)) \<le> 1)"
    (is "?l \<longleftrightarrow> ?r")
  proof
    assume l: ?l
    from l [rule_format, of 0] have "length live \<le> 1" by simp
    moreover have "length (foldl alive_step (alive_step live e) (take n tr)) \<le> 1" for n
      using l [rule_format, of "Suc n"] by simp
    ultimately show ?r by blast
  next
    assume r: ?r
    show ?l
    proof
      fix n
      show "length (foldl alive_step live (take n (e # tr))) \<le> 1"
        using r by (cases n) auto
    qed
  qed
  with Cons show ?case by simp
qed

lemma one_from_length: "one_from live es \<Longrightarrow> length live \<le> Suc 0"
  by (cases es) simp_all

lemma at_most_one_call_one_from: "at_most_one_call tr \<longleftrightarrow> one_from [] tr"
  using one_from_take [of "[]" tr] by (simp add: at_most_one_call_def alive_calls_def)

lemma one_from_append:
  "one_from live (xs @ ys) \<longleftrightarrow> one_from live xs \<and> one_from (foldl alive_step live xs) ys"
  by (induction xs arbitrary: live) (auto dest: one_from_length)

lemma at_most_one_call_Nil [simp]: "at_most_one_call []"
  by (simp add: at_most_one_call_one_from)

lemma at_most_one_call_append [simp]:
  "at_most_one_call (xs @ ys) \<longleftrightarrow> at_most_one_call xs \<and> one_from (alive_calls xs) ys"
  by (simp add: at_most_one_call_one_from one_from_append alive_calls_def)

lemma at_most_one_call_Cons:
  "at_most_one_call (x # xs) \<longleftrightarrow> one_from (alive_step [] x) xs"
  by (simp add: at_most_one_call_one_from)

lemma at_most_one_call_last: "at_most_one_call tr \<Longrightarrow> length (alive_calls tr) \<le> 1"
  unfolding at_most_one_call_def by (metis take_all order_refl)

lemma foldl_alive_disposals:
  "foldl alive_step live (map Disposed ds) = filter (\<lambda>c. c \<notin> set ds) live"
proof (induction ds arbitrary: live)
  case Nil
  then show ?case by simp
next
  case (Cons d ds)
  then show ?case by (auto simp: removeAll_filter_not_eq intro: filter_cong)
qed

lemma one_from_disposals: "length live \<le> 1 \<Longrightarrow> one_from live (map Disposed ds)"
proof (induction ds arbitrary: live)
  case Nil
  then show ?case by simp
next
  case (Cons d ds)
  have "length (removeAll d live) \<le> length live" by (rule length_removeAll_less_eq)
  with Cons.prems have "length (removeAll d live) \<le> 1" by linarith
  with Cons.IH Cons.prems show ?case by simp
qed

lemma removeAll_eq_Nil_iff: "removeAll x xs = [] \<longleftrightarrow> set xs \<subseteq> {x}"
  by (induction xs) auto

lemma all_same_untracked_Nil:
  "\<forall>vm\<in>set live. x = vm \<and> vm \<in> D \<Longrightarrow> x \<notin> D \<Longrightarrow> live = []"
  by (cases live) auto

lemma all_same_removeAll:
  "\<forall>vm\<in>set live. x = vm \<and> vm \<in> D \<Longrightarrow> length (removeAll x live) \<le> Suc 0"
proof -
  assume "\<forall>vm\<in>set live. x = vm \<and> vm \<in> D"
  then have "removeAll x live = []" by (auto simp: removeAll_eq_Nil_iff)
  then show ?thesis by simp
qed

lemma calls_inv_on_pick: "calls_inv s \<Longrightarrow> calls_inv (on_pick c s)"
  unfolding on_pick_def calls_inv_def
  by (auto simp: disposeTracked_def new_CallViewModel_def track_def perform_def emitChange_def
      Let_def removeAll_eq_Nil_iff
      split: option.splits dest: at_most_one_call_last all_same_untracked_Nil
      intro: all_same_removeAll)

lemma calls_inv_setup:
  "trace s = [Created c0] \<Longrightarrow> \<not> is_call c0 \<Longrightarrow> calls_inv (setupCallViewModel picked s)"
  unfolding setupCallViewModel_def calls_inv_def
  by (auto simp: new_CallViewModel_def track_def perform_def Let_def at_most_one_call_Cons
      alive_calls_Cons split: option.splits)

lemma calls_inv_constructor: "calls_inv (constructor r picked)"
  unfolding constructor_def Let_def
  by (rule calls_inv_setup) (auto split: if_splits)

lemma calls_inv_clearUnreadAfterDelay: "calls_inv s \<Longrightarrow> calls_inv (clearUnreadAfterDelay s)"
  unfolding clearUnreadAfterDelay_def calls_inv_def
  by (auto simp: createTimeout_def perform_def Let_def
      dest: at_most_one_call_last)

lemma calls_inv_load_resume: "calls_inv s \<Longrightarrow> calls_inv (load_resume r s)"
  unfolding load_resume_def
  by (rule calls_inv_clearUnreadAfterDelay)
    (auto simp: calls_inv_def new_TimelineViewModel_def track_def perform_def emitChange_def
      reportError_def Let_def split: outcome.splits
      dest: at_most_one_call_last)

lemma calls_inv_perform:
  "calls_inv s \<Longrightarrow> (\<And>c. e \<noteq> Created c) \<Longrightarrow> (\<And>c. e \<noteq> Disposed c) \<Longrightarrow> calls_inv (perform e s)"
  by (cases e) (auto simp: calls_inv_def perform_def dest: at_most_one_call_last)

lemma calls_inv_cong:
  "calls_inv s \<Longrightarrow> trace s' = trace s \<Longrightarrow> callViewModel s' = callViewModel s \<Longrightarrow>
   disposables s' = disposables s \<Longrightarrow> calls_inv s'"
  by (simp add: calls_inv_def)

lemma calls_inv_super_dispose: "calls_inv s \<Longrightarrow> calls_inv (super_dispose s)"
proof -
  assume a: "calls_inv s"
  have live: "foldl alive_step (alive_calls (trace s)) (map Disposed (rev (disposables s))) = []"
    using a by (auto simp: foldl_alive_disposals calls_inv_def filter_empty_conv)
  have one: "one_from (alive_calls (trace s)) (map Disposed (rev (disposables s)))"
    using a at_most_one_call_last one_from_disposals unfolding calls_inv_def by blast
  show ?thesis
    using a live one by (simp add: calls_inv_def super_dispose_def)
qed

lemma calls_inv_abort_timeout: "calls_inv s \<Longrightarrow> calls_inv (abort_timeout t s)"
  unfolding abort_timeout_def
  by (rule calls_inv_perform) (auto elim: calls_inv_cong)

lemma calls_inv_dispose: "calls_inv s \<Longrightarrow> calls_inv (dispose s)"
proof -
  assume a: "calls_inv s"
  have b: "calls_inv (perform RoomOff (super_dispose s))"
    using a by (simp add: calls_inv_perform calls_inv_super_dispose)
  then have c: "calls_inv (perform RoomRelease (perform RoomOff (super_dispose s)))"
    by (simp add: calls_inv_perform)
  have d: "calls_inv ((abort_timeout t s')\<lparr>clearUnreadTimout := None\<rparr>)" if "calls_inv s'" for t s'
    using calls_inv_abort_timeout [OF that, of t] by (rule calls_inv_cong) simp_all
  show ?thesis
    unfolding dispose_def Let_def
    using b c d by (simp split: option.splits)
qed

lemma calls_inv_step: "calls_inv s \<Longrightarrow> calls_inv (step e s)"
proof (cases e)
  case CallLoad
  assume "calls_inv s"
  then show ?thesis using CallLoad
    by (auto simp: load_begin_def calls_inv_def perform_def
        dest: at_most_one_call_last)
next
  case (OpenTimelineSettled r)
  assume a: "calls_inv s"
  then have "calls_inv (s\<lparr>loading := loading s - 1\<rparr>)" by (simp add: calls_inv_def)
  then show ?thesis using a OpenTimelineSettled by (simp add: calls_inv_load_resume)
next
  case CallFocus
  assume "calls_inv s"
  then show ?thesis using CallFocus by (simp add: focus_def calls_inv_clearUnreadAfterDelay)
next
  case (TimerFires t)
  assume "calls_inv s"
  then show ?thesis using TimerFires by (simp add: timer_fires_def calls_inv_def)
next
  case (ElapsedSettled t)
  assume "calls_inv s"
  then show ?thesis using ElapsedSettled
    by (auto simp: after_elapsed_def unawaited_def set_phase_def perform_def calls_inv_def
        catch_clearUnread_def
        split: completion.splits dest: at_most_one_call_last)
next
  case (ClearUnreadSettled t r)
  assume "calls_inv s"
  then show ?thesis using ClearUnreadSettled
    by (auto simp: after_clearUnread_def unawaited_def set_phase_def perform_def calls_inv_def
        catch_clearUnread_def
        split: completion.splits outcome.splits dest: at_most_one_call_last)
next
  case (PickEmits c)
  assume "calls_inv s"
  then show ?thesis using PickEmits by (simp add: calls_inv_on_pick)
next
  case CallDispose
  assume "calls_inv s"
  then show ?thesis using CallDispose by (simp add: calls_inv_dispose)
qed

lemma calls_inv_run: "calls_inv s \<Longrightarrow> calls_inv (run es s)"
  by (induction es arbitrary: s) (simp_all add: calls_inv_step)

text \<open>
  C2: whatever happens to a room view model after its construction, at every moment of
  its trace at most one call view model exists (created and not yet disposed). When the
  pick observable delivers a call other than the one of the call view model that exists,
  the callback first disposes that view model and only then creates the new one.
\<close>

theorem at_most_one_call_view_model:
  "length (alive_calls (take n (trace (run es (constructor r picked))))) \<le> 1 \<and>
   (alive_calls (trace (run es (constructor r picked))) = [old] \<and> \<not> same_call (Some c) (Some old) \<longrightarrow>
      trace (on_pick (Some c) (run es (constructor r picked)))
        = trace (run es (constructor r picked))
          @ [Disposed old, Created (CallViewModel (heap_next (run es (constructor r picked))) c),
             EmitChange (Some (js ''callViewModel''))])"
proof -
  let ?s = "run es (constructor r picked)"
  have inv: "calls_inv ?s" by (rule calls_inv_run [OF calls_inv_constructor])
  then have "length (alive_calls (take n (trace ?s))) \<le> 1"
    by (simp add: calls_inv_def at_most_one_call_def)
  moreover have "trace (on_pick (Some c) ?s)
        = trace ?s @ [Disposed old, Created (CallViewModel (heap_next ?s) c),
                      EmitChange (Some (js ''callViewModel''))]"
    if "alive_calls (trace ?s) = [old]" and "\<not> same_call (Some c) (Some old)"
  proof -
    from inv that(1) have "callViewModel ?s = Some old \<and> old \<in> set (disposables ?s)"
      by (simp add: calls_inv_def)
    with that(2) show ?thesis
      by (simp add: on_pick_def disposeTracked_def new_CallViewModel_def track_def perform_def
          emitChange_def Let_def)
  qed
  ultimately show ?thesis by blast
qed

theorem at_most_one_call_view_model_witness:
  "length (alive_calls (take 5 (trace (run [PickEmits (Some call_b)] (constructor open_room (Some call_a)))))) \<le> 1 \<and>
   alive_calls (trace (run [PickEmits (Some call_b)] (constructor open_room (Some call_a))))
     = [CallViewModel 1 call_b] \<and>
   \<not> same_call (Some call_a) (Some (CallViewModel 1 call_b)) \<and>
   trace (on_pick (Some call_a) (run [PickEmits (Some call_b)] (constructor open_room (Some call_a))))
     = trace (run [PickEmits (Some call_b)] (constructor open_room (Some call_a)))
       @ [Disposed (CallViewModel 1 call_b), Created (CallViewModel 2 call_a),
          EmitChange (Some (js ''callViewModel''))]"
proof -
  let ?s = "run [PickEmits (Some call_b)] (constructor open_room (Some call_a))"
  have ids: "call_id call_a \<noteq> call_id call_b"
    by (simp add: call_a_def call_b_def js_def)
  have s: "?s = \<lparr>room = open_room, timelineVM = None, composerVM = ComposerViewModel,
      clearUnreadTimout = None, callViewModel = Some (CallViewModel 1 call_b),
      disposables = [PickSubscription, CallViewModel 1 call_b], isDisposed = False, loading = 0,
      timers = [], heap_next = 2,
      trace = [Created ComposerViewModel, Created PickSubscription,
               Created (CallViewModel 0 call_a), Disposed (CallViewModel 0 call_a),
               Created (CallViewModel 1 call_b), EmitChange (Some (js ''callViewModel''))]\<rparr>"
    using ids
    by (simp add: constructor_def setupCallViewModel_def on_pick_def same_call_def
        disposeTracked_def new_CallViewModel_def track_def perform_def emitChange_def Let_def
        open_room_def)
  have a: "alive_calls (trace ?s) = [CallViewModel 1 call_b]"
    by (simp only: s) (simp add: alive_calls_def)
  have b: "\<not> same_call (Some call_a) (Some (CallViewModel 1 call_b))"
    using ids by (simp add: same_call_def)
  have h: "heap_next ?s = 2" by (simp only: s) simp
  from a b h
    at_most_one_call_view_model [of 5 "[PickEmits (Some call_b)]" open_room "Some call_a"
      "CallViewModel 1 call_b" call_a]
  show ?thesis by simp
qed

lemmas model_defs =
  constructor_def setupCallViewModel_def on_pick_def same_call_def disposeTracked_def
  new_CallViewModel_def new_TimelineViewModel_def track_def perform_def emitChange_def
  reportError_def load_begin_def load_resume_def clearUnreadAfterDelay_def createTimeout_def
  focus_def dispose_def super_dispose_def abort_timeout_def timer_fires_def set_phase_def
  after_elapsed_def after_clearUnread_def catch_clearUnread_def unawaited_def Let_def

lemma disposals_Nil [simp]: "disposals [] c = 0"
  by (simp add: disposals_def)

lemma disposals_append [simp]: "disposals (xs @ ys) c = disposals xs c + disposals ys c"
  by (simp add: disposals_def)

lemma disposals_Cons [simp]:
  "disposals (e # es) c = (if e = Disposed c then 1 else 0) + disposals es c"
  by (simp add: disposals_def)

lemma disposals_map_Disposed:
  "distinct ds \<Longrightarrow> disposals (map Disposed ds) c = (if c \<in> set ds then 1 else 0)"
  by (induction ds) auto

lemma allocated_Suc: "allocated h c \<Longrightarrow> allocated (Suc h) c"
  by (cases c) auto

lemma tracked_inv_on_pick: "tracked_inv s \<Longrightarrow> tracked_inv (on_pick c s)"
  unfolding on_pick_def tracked_inv_def
  by (auto simp: disposeTracked_def new_CallViewModel_def track_def perform_def emitChange_def
      Let_def allocated_Suc split: option.splits)

lemma tracked_inv_constructor: "tracked_inv (constructor r picked)"
  unfolding constructor_def setupCallViewModel_def tracked_inv_def
  by (auto simp: new_CallViewModel_def track_def perform_def Let_def split: option.splits)

lemma tracked_inv_clearUnreadAfterDelay: "tracked_inv s \<Longrightarrow> tracked_inv (clearUnreadAfterDelay s)"
  unfolding clearUnreadAfterDelay_def tracked_inv_def
  by (auto simp: createTimeout_def perform_def Let_def)

lemma tracked_inv_load_resume: "tracked_inv s \<Longrightarrow> tracked_inv (load_resume r s)"
  unfolding load_resume_def
  by (rule tracked_inv_clearUnreadAfterDelay)
    (auto simp: tracked_inv_def new_TimelineViewModel_def track_def perform_def emitChange_def
      reportError_def Let_def allocated_Suc split: outcome.splits)

lemma tracked_inv_dispose: "tracked_inv s \<Longrightarrow> tracked_inv (dispose s)"
  unfolding dispose_def tracked_inv_def
  by (auto simp: super_dispose_def abort_timeout_def perform_def Let_def disposals_map_Disposed
      split: option.splits)

lemma tracked_inv_step: "tracked_inv s \<Longrightarrow> tracked_inv (step e s)"
proof (cases e)
  case CallLoad
  assume "tracked_inv s"
  then show ?thesis using CallLoad
    by (auto simp: load_begin_def tracked_inv_def perform_def)
next
  case (OpenTimelineSettled r)
  assume a: "tracked_inv s"
  then have "tracked_inv (s\<lparr>loading := loading s - 1\<rparr>)" by (simp add: tracked_inv_def)
  then show ?thesis using a OpenTimelineSettled by (simp add: tracked_inv_load_resume)
next
  case CallFocus
  assume "tracked_inv s"
  then show ?thesis using CallFocus by (simp add: focus_def tracked_inv_clearUnreadAfterDelay)
next
  case (TimerFires t)
  assume "tracked_inv s"
  then show ?thesis using TimerFires by (simp add: timer_fires_def tracked_inv_def)
next
  case (ElapsedSettled t)
  assume "tracked_inv s"
  then show ?thesis using ElapsedSettled
    by (auto simp: after_elapsed_def unawaited_def set_phase_def perform_def tracked_inv_def
        catch_clearUnread_def split: completion.splits)
next
  case (ClearUnreadSettled t r)
  assume "tracked_inv s"
  then show ?thesis using ClearUnreadSettled
    by (auto simp: after_clearUnread_def unawaited_def set_phase_def perform_def tracked_inv_def
        catch_clearUnread_def split: completion.splits outcome.splits)
next
  case (PickEmits c)
  assume "tracked_inv s"
  then show ?thesis using PickEmits by (simp add: tracked_inv_on_pick)
next
  case CallDispose
  assume "tracked_inv s"
  then show ?thesis using CallDispose by (simp add: tracked_inv_dispose)
qed

lemma tracked_inv_run: "tracked_inv s \<Longrightarrow> tracked_inv (run es s)"
  by (induction es arbitrary: s) (simp_all add: tracked_inv_step)


lemma reported_Nil [simp]: "reported [] = []"
  by (simp add: reported_def)

lemma reported_Cons [simp]:
  "reported (e # es) = (case e of ReportError err \<Rightarrow> [err] | _ \<Rightarrow> []) @ reported es"
  by (simp add: reported_def)

lemma is_pending_clearUnreadAfterDelay:
  "is_pending s t \<Longrightarrow> is_pending (clearUnreadAfterDelay s) t"
  by (auto simp: is_pending_def clearUnreadAfterDelay_def createTimeout_def perform_def Let_def
      nth_append)

lemma pending_new_timeout:
  assumes "pending s = []" and "timers s' = timers s @ [(Pending, AwaitElapsed)]"
  shows "pending s' = [length (timers s)]"
proof -
  have old: "is_pending s' t \<longleftrightarrow> is_pending s t" if "t < length (timers s)" for t
    using that assms(2) by (simp add: is_pending_def nth_append)
  have "filter (is_pending s') [0..<length (timers s)] = filter (is_pending s) [0..<length (timers s)]"
    by (rule filter_cong) (simp_all add: old)
  moreover have "is_pending s' (length (timers s))"
    using assms(2) by (simp add: is_pending_def)
  ultimately show ?thesis
    using assms by (simp add: pending_def)
qed

text \<open>
  C5: when the \<open>openTimeline()\<close> awaited by \<open>load()\<close> fails, no timeline view model is
  attached (the timeline field and the tracked children are as before), exactly one
  error, the failure, is passed to \<open>reportError\<close>, and the deferred unread-clear is
  scheduled just as after a successful load: the timeout reference and the timeouts of
  the clock are the same in both cases. By the rule of \<open>_clearUnreadAfterDelay\<close>, on a
  room that is not archived and with no timeout held, a new pending timeout is created
  and held; a timeout that was pending stays pending; on an archived room, or with a
  timeout already held, none is created. In particular, after \<open>load()\<close> on a new view
  model has failed, the timeline field is null, one error has been reported, and on a
  room that is not archived exactly one timeout is pending.
\<close>

theorem load_failure:
  assumes "0 < loading s"
  shows "timelineVM (step (OpenTimelineSettled (Rejected e)) s) = timelineVM s \<and>
         disposables (step (OpenTimelineSettled (Rejected e)) s) = disposables s \<and>
         reported (trace (step (OpenTimelineSettled (Rejected e)) s)) = reported (trace s) @ [e] \<and>
         clearUnreadTimout (step (OpenTimelineSettled (Rejected e)) s)
           = clearUnreadTimout (step (OpenTimelineSettled (Resolved ())) s) \<and>
         timers (step (OpenTimelineSettled (Rejected e)) s)
           = timers (step (OpenTimelineSettled (Resolved ())) s) \<and>
         (isArchived (room s) \<or> clearUnreadTimout s \<noteq> None \<longrightarrow>
            clearUnreadTimout (step (OpenTimelineSettled (Rejected e)) s) = clearUnreadTimout s \<and>
            timers (step (OpenTimelineSettled (Rejected e)) s) = timers s) \<and>
         (\<not> isArchived (room s) \<and> clearUnreadTimout s = None \<longrightarrow>
            clearUnreadTimout (step (OpenTimelineSettled (Rejected e)) s) = Some (length (timers s)) \<and>
            timers (step (OpenTimelineSettled (Rejected e)) s) = timers s @ [(Pending, AwaitElapsed)] \<and>
            (pending s = [] \<longrightarrow> pending (step (OpenTimelineSettled (Rejected e)) s) = [length (timers s)])) \<and>
         (\<forall>t. is_pending s t \<longrightarrow> is_pending (step (OpenTimelineSettled (Rejected e)) s) t) \<and>
         timelineVM (run [CallLoad, OpenTimelineSettled (Rejected e)] (constructor r picked)) = None \<and>
         reported (trace (run [CallLoad, OpenTimelineSettled (Rejected e)] (constructor r picked))) = [e] \<and>
         pending (run [CallLoad, OpenTimelineSettled (Rejected e)] (constructor r picked))
           = (if isArchived r then [] else [0])"
proof -
  let ?s' = "step (OpenTimelineSettled (Rejected e)) s"
  have a: "timelineVM ?s' = timelineVM s \<and> disposables ?s' = disposables s \<and>
           reported (trace ?s') = reported (trace s) @ [e]"
    using assms
    by (simp add: load_resume_def clearUnreadAfterDelay_def createTimeout_def reportError_def
        perform_def Let_def)
  have b: "clearUnreadTimout ?s' = clearUnreadTimout (step (OpenTimelineSettled (Resolved ())) s) \<and>
           timers ?s' = timers (step (OpenTimelineSettled (Resolved ())) s)"
    using assms
    by (simp add: load_resume_def clearUnreadAfterDelay_def createTimeout_def reportError_def
        new_TimelineViewModel_def track_def emitChange_def perform_def Let_def)
  have c: "clearUnreadTimout ?s' = clearUnreadTimout s \<and> timers ?s' = timers s"
    if "isArchived (room s) \<or> clearUnreadTimout s \<noteq> None"
    using assms that
    by (auto simp: load_resume_def clearUnreadAfterDelay_def createTimeout_def reportError_def
        perform_def Let_def)
  have d: "clearUnreadTimout ?s' = Some (length (timers s)) \<and>
           timers ?s' = timers s @ [(Pending, AwaitElapsed)] \<and>
           (pending s = [] \<longrightarrow> pending ?s' = [length (timers s)])"
    if "\<not> isArchived (room s) \<and> clearUnreadTimout s = None"
  proof -
    from assms that have t: "clearUnreadTimout ?s' = Some (length (timers s))"
      "timers ?s' = timers s @ [(Pending, AwaitElapsed)]"
      by (simp_all add: load_resume_def clearUnreadAfterDelay_def createTimeout_def
          reportError_def perform_def Let_def)
    with pending_new_timeout [OF _ t(2)] show ?thesis by blast
  qed
  have f: "is_pending ?s' t" if "is_pending s t" for t
  proof -
    from that have "is_pending (reportError e (s\<lparr>loading := loading s - 1\<rparr>)) t"
      by (simp add: is_pending_def reportError_def perform_def)
    then show ?thesis
      using assms by (simp add: load_resume_def is_pending_clearUnreadAfterDelay)
  qed
  have g: "timelineVM (run [CallLoad, OpenTimelineSettled (Rejected e)] (constructor r picked)) = None \<and>
         reported (trace (run [CallLoad, OpenTimelineSettled (Rejected e)] (constructor r picked))) = [e] \<and>
         pending (run [CallLoad, OpenTimelineSettled (Rejected e)] (constructor r picked))
           = (if isArchived r then [] else [0])"
    by (cases picked) (simp_all add: model_defs pending_def is_pending_def)
  from a b c d f g show ?thesis by blast
qed

theorem load_failure_witness:
  "0 < loading (step CallLoad (constructor open_room None)) \<and>
   \<not> isArchived (room (step CallLoad (constructor open_room None))) \<and>
   clearUnreadTimout (step CallLoad (constructor open_room None)) = None \<and>
   pending (step CallLoad (constructor open_room None)) = [] \<and>
   timelineVM (step (OpenTimelineSettled (Rejected network_error)) (step CallLoad (constructor open_room None))) = None \<and>
   reported (trace (step (OpenTimelineSettled (Rejected network_error)) (step CallLoad (constructor open_room None))))
     = [network_error] \<and>
   clearUnreadTimout (step (OpenTimelineSettled (Rejected network_error)) (step CallLoad (constructor open_room None)))
     = Some 0 \<and>
   timers (step (OpenTimelineSettled (Rejected network_error)) (step CallLoad (constructor open_room None)))
     = [(Pending, AwaitElapsed)] \<and>
   pending (step (OpenTimelineSettled (Rejected network_error)) (step CallLoad (constructor open_room None)))
     = [0]"
proof -
  define s where "s = step CallLoad (constructor open_room None)"
  have s: "s = \<lparr>room = open_room, timelineVM = None, composerVM = ComposerViewModel,
      clearUnreadTimout = None, callViewModel = None, disposables = [PickSubscription],
      isDisposed = False, loading = 1, timers = [], heap_next = 0,
      trace = [Created ComposerViewModel, Created PickSubscription, RoomOn, OpenTimeline]\<rparr>"
    unfolding s_def by (simp add: model_defs open_room_def)
  have a: "0 < loading s" by (simp only: s) simp
  have b: "\<not> isArchived (room s) \<and> clearUnreadTimout s = None"
    by (simp only: s) (simp add: open_room_def)
  have c: "timelineVM s = None" "reported (trace s) = []" "timers s = []" "pending s = []"
    by (simp_all only: s) (simp_all add: reported_def pending_def)
  note T = load_failure [OF a, of network_error open_room None]
  from T have T1: "timelineVM (step (OpenTimelineSettled (Rejected network_error)) s) = timelineVM s"
    and T2: "reported (trace (step (OpenTimelineSettled (Rejected network_error)) s)) = reported (trace s) @ [network_error]"
    and T3: "\<not> isArchived (room s) \<and> clearUnreadTimout s = None \<longrightarrow>
            clearUnreadTimout (step (OpenTimelineSettled (Rejected network_error)) s) = Some (length (timers s)) \<and>
            timers (step (OpenTimelineSettled (Rejected network_error)) s) = timers s @ [(Pending, AwaitElapsed)] \<and>
            (pending s = [] \<longrightarrow> pending (step (OpenTimelineSettled (Rejected network_error)) s) = [length (timers s)])"
    by blast+
  from T1 c(1) have d: "timelineVM (step (OpenTimelineSettled (Rejected network_error)) s) = None"
    by (simp del: step.simps)
  from T2 c(2) have e: "reported (trace (step (OpenTimelineSettled (Rejected network_error)) s)) = [network_error]"
    by (simp del: step.simps)
  from T3 b c(3) c(4) have f: "clearUnreadTimout (step (OpenTimelineSettled (Rejected network_error)) s) = Some 0
       \<and> timers (step (OpenTimelineSettled (Rejected network_error)) s) = [(Pending, AwaitElapsed)]
       \<and> pending (step (OpenTimelineSettled (Rejected network_error)) s) = [0]"
    by (simp del: step.simps)
  from a b c(4) d e f show ?thesis unfolding s_def by blast
qed


lemma abort_inv_cong:
  "abort_inv s \<Longrightarrow> timers s' = timers s \<Longrightarrow> trace s' = trace s \<Longrightarrow> abort_inv s'"
  by (simp add: abort_inv_def)

lemma abort_inv_perform:
  "abort_inv s \<Longrightarrow> (\<And>t. e \<noteq> ClearUnread t) \<Longrightarrow> abort_inv (perform e s)"
  by (auto simp: abort_inv_def perform_def)

lemma abort_inv_on_pick: "abort_inv s \<Longrightarrow> abort_inv (on_pick c s)"
  unfolding on_pick_def abort_inv_def
  by (auto simp: disposeTracked_def new_CallViewModel_def track_def perform_def emitChange_def
      Let_def split: option.splits)

lemma abort_inv_constructor: "abort_inv (constructor r picked)"
  unfolding constructor_def setupCallViewModel_def abort_inv_def
  by (auto simp: new_CallViewModel_def track_def perform_def Let_def split: option.splits)

lemma abort_inv_clearUnreadAfterDelay: "abort_inv s \<Longrightarrow> abort_inv (clearUnreadAfterDelay s)"
  unfolding clearUnreadAfterDelay_def abort_inv_def
  by (auto simp: createTimeout_def perform_def Let_def nth_append)

lemma abort_inv_load_resume: "abort_inv s \<Longrightarrow> abort_inv (load_resume r s)"
  unfolding load_resume_def
  by (rule abort_inv_clearUnreadAfterDelay)
    (auto simp: abort_inv_def new_TimelineViewModel_def track_def perform_def emitChange_def
      reportError_def Let_def split: outcome.splits)

lemma abort_inv_abort_timeout: "abort_inv s \<Longrightarrow> abort_inv (abort_timeout t s)"
  unfolding abort_timeout_def abort_inv_def
  by (auto simp: perform_def nth_list_update)

lemma abort_inv_super_dispose: "abort_inv s \<Longrightarrow> abort_inv (super_dispose s)"
  by (auto simp: abort_inv_def super_dispose_def)

lemma abort_inv_dispose: "abort_inv s \<Longrightarrow> abort_inv (dispose s)"
proof -
  assume a: "abort_inv s"
  have b: "abort_inv (perform RoomOff (super_dispose s))"
    using a by (simp add: abort_inv_perform abort_inv_super_dispose)
  then have c: "abort_inv (perform RoomRelease (perform RoomOff (super_dispose s)))"
    by (simp add: abort_inv_perform)
  have d: "abort_inv ((abort_timeout t s')\<lparr>clearUnreadTimout := None\<rparr>)" if "abort_inv s'" for t s'
    using abort_inv_abort_timeout [OF that, of t] by (rule abort_inv_cong) simp_all
  show ?thesis
    unfolding dispose_def Let_def
    using b c d by (simp split: option.splits)
qed

lemma abort_inv_step: "abort_inv s \<Longrightarrow> abort_inv (step e s)"
proof (cases e)
  case CallLoad
  assume "abort_inv s"
  then show ?thesis using CallLoad
    by (auto simp: load_begin_def abort_inv_def perform_def)
next
  case (OpenTimelineSettled r)
  assume a: "abort_inv s"
  then have "abort_inv (s\<lparr>loading := loading s - 1\<rparr>)" by (simp add: abort_inv_def)
  then show ?thesis using a OpenTimelineSettled by (simp add: abort_inv_load_resume)
next
  case CallFocus
  assume "abort_inv s"
  then show ?thesis using CallFocus by (simp add: focus_def abort_inv_clearUnreadAfterDelay)
next
  case (TimerFires t)
  assume "abort_inv s"
  then show ?thesis using TimerFires
    by (auto simp: timer_fires_def abort_inv_def nth_list_update)
next
  case (ElapsedSettled t)
  assume "abort_inv s"
  then show ?thesis using ElapsedSettled
    by (auto simp: after_elapsed_def unawaited_def set_phase_def perform_def abort_inv_def
        catch_clearUnread_def AbortError_def nth_list_update split: completion.splits)
next
  case (ClearUnreadSettled t r)
  assume "abort_inv s"
  then show ?thesis using ClearUnreadSettled
    by (auto simp: after_clearUnread_def unawaited_def set_phase_def perform_def abort_inv_def
        catch_clearUnread_def nth_list_update split: completion.splits outcome.splits)
next
  case (PickEmits c)
  assume "abort_inv s"
  then show ?thesis using PickEmits by (simp add: abort_inv_on_pick)
next
  case CallDispose
  assume "abort_inv s"
  then show ?thesis using CallDispose by (simp add: abort_inv_dispose)
qed

lemma abort_inv_run: "abort_inv s \<Longrightarrow> abort_inv (run es s)"
  by (induction es arbitrary: s) (simp_all add: abort_inv_step)

lemma is_aborted_cong: "is_aborted t s \<Longrightarrow> timers s' = timers s \<Longrightarrow> is_aborted t s'"
  by (simp add: is_aborted_def)

lemma is_aborted_clearUnreadAfterDelay: "is_aborted t s \<Longrightarrow> is_aborted t (clearUnreadAfterDelay s)"
  by (auto simp: is_aborted_def clearUnreadAfterDelay_def createTimeout_def perform_def Let_def
      nth_append)

lemma is_aborted_load_resume: "is_aborted t s \<Longrightarrow> is_aborted t (load_resume r s)"
  unfolding load_resume_def
  by (rule is_aborted_clearUnreadAfterDelay)
    (auto simp: is_aborted_def new_TimelineViewModel_def track_def perform_def emitChange_def
      reportError_def Let_def split: outcome.splits)

lemma is_aborted_step: "is_aborted t s \<Longrightarrow> is_aborted t (step e s)"
proof (cases e)
  case CallLoad
  assume "is_aborted t s"
  then show ?thesis using CallLoad by (simp add: is_aborted_def load_begin_def perform_def)
next
  case (OpenTimelineSettled r)
  assume a: "is_aborted t s"
  then have "is_aborted t (s\<lparr>loading := loading s - 1\<rparr>)" by (simp add: is_aborted_def)
  then show ?thesis using a OpenTimelineSettled by (simp add: is_aborted_load_resume)
next
  case CallFocus
  assume "is_aborted t s"
  then show ?thesis using CallFocus by (simp add: focus_def is_aborted_clearUnreadAfterDelay)
next
  case (TimerFires u)
  assume "is_aborted t s"
  then show ?thesis using TimerFires
    by (auto simp: timer_fires_def is_aborted_def nth_list_update)
next
  case (ElapsedSettled u)
  assume "is_aborted t s"
  then show ?thesis using ElapsedSettled
    by (auto simp: after_elapsed_def unawaited_def set_phase_def perform_def is_aborted_def
        catch_clearUnread_def AbortError_def nth_list_update split: completion.splits)
next
  case (ClearUnreadSettled u r)
  assume "is_aborted t s"
  then show ?thesis using ClearUnreadSettled
    by (auto simp: after_clearUnread_def unawaited_def set_phase_def perform_def is_aborted_def
        catch_clearUnread_def nth_list_update split: completion.splits outcome.splits)
next
  case (PickEmits c)
  assume "is_aborted t s"
  then show ?thesis using PickEmits
    by (auto simp: is_aborted_def on_pick_def disposeTracked_def new_CallViewModel_def track_def
        perform_def emitChange_def Let_def split: option.splits)
next
  case CallDispose
  assume "is_aborted t s"
  then show ?thesis using CallDispose
    by (auto simp: is_aborted_def dispose_def super_dispose_def abort_timeout_def perform_def
        Let_def nth_list_update split: option.splits)
qed

lemma is_aborted_run: "is_aborted t s \<Longrightarrow> is_aborted t (run es s)"
  by (induction es arbitrary: s) (simp_all add: is_aborted_step)

lemma abort_inv_aborted: "abort_inv s \<Longrightarrow> is_aborted t s \<Longrightarrow> ClearUnread t \<notin> set (trace s)"
  by (simp add: abort_inv_def is_aborted_def)

text \<open>
  C7: once the pending timeout of a deferred unread-clear has been aborted, whatever
  happens afterwards, \<open>clearUnread()\<close> is never called for it, and resuming the suspended
  invocation adds nothing to the trace: no error is reported and none is raised. The
  invocation resumed with the abort condition returns normally; resumed with any other
  exception from \<open>elapsed()\<close>, it ends by raising that exception.
\<close>

theorem aborted_delay_is_silent:
  "(is_aborted t (run es (constructor r picked)) \<longrightarrow>
      ClearUnread t \<notin> set (trace (run es' (run es (constructor r picked)))) \<and>
      trace (step (ElapsedSettled t) (run es (constructor r picked)))
        = trace (run es (constructor r picked))) \<and>
   fst (after_elapsed t (Rejected AbortError) s) = Some (Returned ()) \<and>
   trace (snd (after_elapsed t (Rejected AbortError) s)) = trace s \<and>
   (err_name err \<noteq> js ''AbortError'' \<longrightarrow>
      fst (after_elapsed t (Rejected err) s) = Some (Raised err))"
proof -
  let ?s = "run es (constructor r picked)"
  have inv: "abort_inv (run es' ?s)"
    by (intro abort_inv_run abort_inv_constructor)
  have "ClearUnread t \<notin> set (trace (run es' ?s)) \<and> trace (step (ElapsedSettled t) ?s) = trace ?s"
    if a: "is_aborted t ?s"
  proof -
    from a have "is_aborted t (run es' ?s)" by (rule is_aborted_run)
    with inv have "ClearUnread t \<notin> set (trace (run es' ?s))" by (rule abort_inv_aborted)
    moreover have "trace (step (ElapsedSettled t) ?s) = trace ?s"
      using a
      by (simp add: is_aborted_def after_elapsed_def unawaited_def set_phase_def
          catch_clearUnread_def AbortError_def)
    ultimately show ?thesis by blast
  qed
  moreover have "fst (after_elapsed t (Rejected AbortError) s) = Some (Returned ())"
    by (simp add: after_elapsed_def catch_clearUnread_def AbortError_def)
  moreover have "trace (snd (after_elapsed t (Rejected AbortError) s)) = trace s"
    by (simp add: after_elapsed_def set_phase_def)
  moreover have "fst (after_elapsed t (Rejected err) s) = Some (Raised err)"
    if "err_name err \<noteq> js ''AbortError''"
    using that by (simp add: after_elapsed_def catch_clearUnread_def)
  ultimately show ?thesis by blast
qed

theorem aborted_delay_is_silent_witness:
  "is_aborted 0 (run [CallFocus, CallDispose] (constructor open_room None)) \<and>
   ClearUnread 0 \<notin> set (trace (run [ElapsedSettled 0, TimerFires 0, ClearUnreadSettled 0 (Resolved ())]
                                  (run [CallFocus, CallDispose] (constructor open_room None)))) \<and>
   trace (step (ElapsedSettled 0) (run [CallFocus, CallDispose] (constructor open_room None)))
     = trace (run [CallFocus, CallDispose] (constructor open_room None)) \<and>
   err_name network_error \<noteq> js ''AbortError'' \<and>
   fst (after_elapsed 0 (Rejected network_error) (constructor open_room None))
     = Some (Raised network_error)"
proof -
  define s where "s = run [CallFocus, CallDispose] (constructor open_room None)"
  have a: "is_aborted 0 s"
    unfolding s_def by (simp add: model_defs is_aborted_def open_room_def)
  have b: "err_name network_error \<noteq> js ''AbortError''"
    by (simp add: network_error_def js_def)
  note T = aborted_delay_is_silent [of 0 "[CallFocus, CallDispose]" open_room None
      "[ElapsedSettled 0, TimerFires 0, ClearUnreadSettled 0 (Resolved ())]"
      "constructor open_room None" network_error, folded s_def]
  from T a b show ?thesis unfolding s_def by blast
qed


lemma timer_append:
  "timers s' = timers s @ [x] \<Longrightarrow> timer s' t = (if t = length (timers s) then Some x else timer s t)"
  by (auto simp: timer_def nth_append)

lemma timer_update:
  "timers s' = (timers s)[u := x] \<Longrightarrow>
   timer s' t = (if t = u \<and> u < length (timers s) then Some x else timer s t)"
  by (auto simp: timer_def)

lemma timer_same: "timers s' = timers s \<Longrightarrow> timer s' = timer s"
  by (auto simp: timer_def fun_eq_iff)

lemma timer_bound: "timer s t = Some x \<Longrightarrow> t < length (timers s)"
  by (simp add: timer_def split: if_splits)

lemma timer_nth: "t < length (timers s) \<Longrightarrow> timer s t = Some (timers s ! t)"
  by (simp add: timer_def)

lemma timer_fresh [simp]: "timer s (length (timers s)) = None"
  by (simp add: timer_def)

lemma is_pending_timer: "is_pending s t \<longleftrightarrow> (\<exists>ph. timer s t = Some (Pending, ph))"
  by (cases "timers s ! t") (auto simp: is_pending_def timer_def)

lemma is_pending_same: "timers s' = timers s \<Longrightarrow> is_pending s' = is_pending s"
  by (auto simp: is_pending_def fun_eq_iff)

lemma timer_inv_cong:
  "timer_inv s \<Longrightarrow> timers s' = timers s \<Longrightarrow> loading s' = loading s \<Longrightarrow>
   isDisposed s' = isDisposed s \<Longrightarrow> clearUnreadTimout s' = clearUnreadTimout s \<Longrightarrow>
   set (trace s) \<subseteq> set (trace s') \<Longrightarrow> timer_inv s'"
proof -
  assume a: "timer_inv s" "timers s' = timers s" "loading s' = loading s"
    "isDisposed s' = isDisposed s" "clearUnreadTimout s' = clearUnreadTimout s"
    "set (trace s) \<subseteq> set (trace s')"
  note eq = timer_same [OF a(2)] is_pending_same [OF a(2)]
  from a show ?thesis
    unfolding timer_inv_def inv_load_def inv_phase_def inv_live_def inv_post_def eq
    by (simp add: subset_iff)
qed

lemma inv_live_no_ref:
  "inv_live s \<Longrightarrow> \<not> isDisposed s \<Longrightarrow> clearUnreadTimout s = None \<Longrightarrow> timer s t = Some (st, ph) \<Longrightarrow>
   ph = Finished"
  unfolding inv_live_def by fastforce

lemma timer_inv_new:
  assumes inv: "timer_inv s" and ref: "clearUnreadTimout s = None"
    and np: "isDisposed s \<Longrightarrow> (\<forall>t. \<not> is_pending s t) \<and> loading s = 0"
    and ts: "timers s' = timers s @ [(Pending, AwaitElapsed)]"
    and ref': "clearUnreadTimout s' = Some (length (timers s))"
    and same: "loading s' = loading s" "isDisposed s' = isDisposed s"
    and tr: "set (trace s) \<subseteq> set (trace s')"
  shows "timer_inv s'"
proof -
  have l: "inv_load s'"
    using inv same tr by (auto simp: timer_inv_def inv_load_def)
  have p: "inv_phase s'"
    using inv unfolding timer_inv_def inv_phase_def
    by (simp add: timer_append [OF ts])
  have v: "inv_live s'"
    unfolding inv_live_def
  proof (intro impI allI)
    fix t st ph
    assume d: "\<not> isDisposed s'" and t: "timer s' t = Some (st, ph) \<and> ph \<noteq> Finished"
    show "clearUnreadTimout s' = Some t"
    proof (cases "t = length (timers s)")
      case True
      with ref' show ?thesis by simp
    next
      case False
      with t have "timer s t = Some (st, ph)" by (simp add: timer_append [OF ts])
      moreover from inv have "inv_live s" by (simp add: timer_inv_def)
      moreover from d same have "\<not> isDisposed s" by simp
      ultimately have "ph = Finished" using ref by (intro inv_live_no_ref)
      with t show ?thesis by simp
    qed
  qed
  have q: "inv_post s'"
    unfolding inv_post_def
  proof
    assume "isDisposed s'"
    with same have d: "isDisposed s" by simp
    from np [OF d] have none: "\<And>t. \<not> is_pending s t" and l0: "loading s = 0" by simp_all
    have only: "t = length (timers s)" if "is_pending s' t" for t
    proof (rule ccontr)
      assume n: "t \<noteq> length (timers s)"
      from that obtain ph where "timer s' t = Some (Pending, ph)" by (auto simp: is_pending_timer)
      with n have "timer s t = Some (Pending, ph)" by (simp add: timer_append [OF ts])
      then have "is_pending s t" by (auto simp: is_pending_timer)
      with none show False by simp
    qed
    show "(\<forall>t u. is_pending s' t \<and> is_pending s' u \<longrightarrow> t = u) \<and>
          (0 < loading s' \<longrightarrow> (\<forall>t. \<not> is_pending s' t))"
      using only l0 same by auto
  qed
  from l p v q show ?thesis by (simp add: timer_inv_def)
qed


lemma is_pending_update:
  "timers s' = (timers s)[u := (st, ph)] \<Longrightarrow> st \<noteq> Pending \<Longrightarrow>
   is_pending s' t \<longleftrightarrow> is_pending s t \<and> \<not> (t = u)"
  by (cases "t = u") (auto simp: is_pending_def)

lemma is_pending_phase:
  "timers s' = (timers s)[u := (fst (timers s ! u), ph)] \<Longrightarrow> is_pending s' t \<longleftrightarrow> is_pending s t"
  by (cases "t = u") (auto simp: is_pending_def)

lemma timer_inv_status:
  assumes inv: "timer_inv s" and t: "t < length (timers s)" "fst (timers s ! t) = Pending"
    and st: "st = Elapsed \<or> st = Aborted"
    and ts: "timers s' = (timers s)[t := (st, snd (timers s ! t))]"
    and same: "loading s' = loading s" "isDisposed s' = isDisposed s"
       "clearUnreadTimout s' = clearUnreadTimout s"
    and tr: "set (trace s) \<subseteq> set (trace s')"
  shows "timer_inv s'"
proof -
  from st have np: "st \<noteq> Pending" by auto
  have cur: "timer s t = Some (Pending, snd (timers s ! t))"
    using t by (cases "timers s ! t") (simp add: timer_def)
  from inv cur have ph: "snd (timers s ! t) = AwaitElapsed"
    unfolding timer_inv_def inv_phase_def by blast
  have l: "inv_load s'"
    using inv same tr by (auto simp: timer_inv_def inv_load_def)
  have p: "inv_phase s'"
    using inv st ph unfolding timer_inv_def inv_phase_def
    by (auto simp: timer_update [OF ts])
  have v: "inv_live s'"
    using inv cur ph same unfolding timer_inv_def inv_live_def
    by (auto simp: timer_update [OF ts])
  have q: "inv_post s'"
    using inv same unfolding timer_inv_def inv_post_def
    by (simp add: is_pending_update [OF ts np])
  from l p v q show ?thesis by (simp add: timer_inv_def)
qed

lemma timer_inv_timer_fires: "timer_inv s \<Longrightarrow> timer_inv (timer_fires t s)"
  unfolding timer_fires_def
  by (auto intro: timer_inv_status [where st = Elapsed and t = t])

lemma timer_inv_phase:
  assumes inv: "timer_inv s" and t: "t < length (timers s)"
    and old: "fst (timers s ! t) \<noteq> Pending" "snd (timers s ! t) \<noteq> Finished"
    and ph: "ph = Finished \<or> ph = AwaitClearUnread \<and> fst (timers s ! t) = Elapsed"
    and ts: "timers s' = (timers s)[t := (fst (timers s ! t), ph)]"
    and same: "loading s' = loading s" "isDisposed s' = isDisposed s"
    and ref: "clearUnreadTimout s' = clearUnreadTimout s \<or>
              clearUnreadTimout s' = None \<and> ph = Finished"
    and tr: "set (trace s) \<subseteq> set (trace s')"
  shows "timer_inv s'"
proof -
  have cur: "timer s t = Some (fst (timers s ! t), snd (timers s ! t))"
    using t by (simp add: timer_def)
  have l: "inv_load s'"
    using inv same tr by (auto simp: timer_inv_def inv_load_def)
  have p: "inv_phase s'"
    using inv ph cur old unfolding timer_inv_def inv_phase_def
    by (auto simp: timer_update [OF ts])
  have v: "inv_live s'"
    unfolding inv_live_def
  proof (intro impI allI)
    fix u st' ph'
    assume d: "\<not> isDisposed s'" and u: "timer s' u = Some (st', ph') \<and> ph' \<noteq> Finished"
    from d same have d': "\<not> isDisposed s" by simp
    from inv have live: "inv_live s" by (simp add: timer_inv_def)
    show "clearUnreadTimout s' = Some u"
    proof (cases "u = t")
      case True
      with u t have "ph' = ph" "ph \<noteq> Finished" by (auto simp: timer_update [OF ts])
      with ph have e: "ph = AwaitClearUnread" "fst (timers s ! t) = Elapsed" by auto
      with ref have r: "clearUnreadTimout s' = clearUnreadTimout s" by auto
      from u True t have "st' = fst (timers s ! t)" by (auto simp: timer_update [OF ts])
      from old live d' cur have "clearUnreadTimout s = Some t" unfolding inv_live_def by blast
      with r True show ?thesis by simp
    next
      case False
      with u have us: "timer s u = Some (st', ph')" by (simp add: timer_update [OF ts])
      with live d' u have r: "clearUnreadTimout s = Some u" unfolding inv_live_def by blast
      from ref show ?thesis
      proof
        assume "clearUnreadTimout s' = clearUnreadTimout s"
        with r show ?thesis by simp
      next
        assume a: "clearUnreadTimout s' = None \<and> ph = Finished"
        from old live d' cur have "clearUnreadTimout s = Some t" unfolding inv_live_def by blast
        with r False show ?thesis by simp
      qed
    qed
  qed
  have q: "inv_post s'"
    using inv same unfolding timer_inv_def inv_post_def
    by (simp add: is_pending_phase [OF ts])
  from l p v q show ?thesis by (simp add: timer_inv_def)
qed


lemma timer_inv_pending_ref:
  assumes inv: "timer_inv s" and d: "\<not> isDisposed s" and p: "is_pending s t"
  shows "clearUnreadTimout s = Some t"
proof -
  from p obtain ph where t: "timer s t = Some (Pending, ph)" by (auto simp: is_pending_timer)
  with inv have "ph = AwaitElapsed" unfolding timer_inv_def inv_phase_def by blast
  then have "ph \<noteq> Finished" by simp
  with inv d t show ?thesis unfolding timer_inv_def inv_live_def by blast
qed

lemma timer_inv_pending_unique:
  assumes inv: "timer_inv s" and pt: "is_pending s t" and pu: "is_pending s u"
  shows "t = u"
proof (cases "isDisposed s")
  case True
  with inv have "\<forall>t u. is_pending s t \<and> is_pending s u \<longrightarrow> t = u"
    by (simp add: timer_inv_def inv_post_def)
  with pt pu show ?thesis by blast
next
  case False
  from timer_inv_pending_ref [OF inv False pt] timer_inv_pending_ref [OF inv False pu]
  show ?thesis by simp
qed

lemma timer_inv_clearUnreadAfterDelay:
  assumes inv: "timer_inv s"
    and d: "isDisposed s \<Longrightarrow> (\<forall>t. \<not> is_pending s t) \<and> loading s = 0"
  shows "timer_inv (clearUnreadAfterDelay s)"
proof (cases "isArchived (room s) \<or> clearUnreadTimout s \<noteq> None")
  case True
  with inv show ?thesis by (simp add: clearUnreadAfterDelay_def)
next
  case False
  then have ref: "clearUnreadTimout s = None" by simp
  show ?thesis
    by (rule timer_inv_new [OF inv ref d])
      (use False in \<open>auto simp: clearUnreadAfterDelay_def createTimeout_def perform_def Let_def\<close>)
qed

lemma timer_inv_load_begin:
  assumes inv: "timer_inv s" and a: "\<not> isDisposed s" "RoomOn \<notin> set (trace s)"
  shows "timer_inv (load_begin s)"
proof -
  from inv a have l: "loading s = 0" by (auto simp: timer_inv_def inv_load_def)
  have ts: "timers (load_begin s) = timers s" by (simp add: load_begin_def perform_def)
  note eq = timer_same [OF ts] is_pending_same [OF ts]
  from inv a l show ?thesis
    unfolding timer_inv_def inv_load_def inv_phase_def inv_live_def inv_post_def eq
    by (simp add: load_begin_def perform_def)
qed

lemma timer_inv_loaded:
  assumes inv: "timer_inv s"
  shows "timer_inv (s\<lparr>loading := loading s - 1\<rparr>)"
proof -
  have ts: "timers (s\<lparr>loading := loading s - 1\<rparr>) = timers s" by simp
  note eq = timer_same [OF ts] is_pending_same [OF ts]
  from inv show ?thesis
    unfolding timer_inv_def inv_load_def inv_phase_def inv_live_def inv_post_def eq
    by auto
qed

lemma timer_inv_load_resume:
  assumes inv: "timer_inv s" and l: "0 < loading s"
  shows "timer_inv (load_resume r (s\<lparr>loading := loading s - 1\<rparr>))"
proof -
  let ?s1 = "s\<lparr>loading := loading s - 1\<rparr>"
  let ?s2 = "case r of
          Resolved timeline \<Rightarrow>
            (case new_TimelineViewModel ?s1 of
               (vm, s') \<Rightarrow>
                 emitChange (Some (js ''timelineViewModel'')) ((track vm s')\<lparr>timelineVM := Some vm\<rparr>))
        | Rejected error \<Rightarrow> reportError error ?s1"
  from inv l have l1: "loading s = 1" by (auto simp: timer_inv_def inv_load_def)
  have inv2: "timer_inv ?s2"
    by (rule timer_inv_cong [OF timer_inv_loaded [OF inv]])
      (auto simp: new_TimelineViewModel_def track_def perform_def emitChange_def reportError_def
        Let_def split: outcome.splits)
  have f: "timers ?s2 = timers s" "isDisposed ?s2 = isDisposed s" "loading ?s2 = 0"
    using l1
    by (auto simp: new_TimelineViewModel_def track_def perform_def emitChange_def reportError_def
        Let_def split: outcome.splits)
  have d: "(\<forall>t. \<not> is_pending ?s2 t) \<and> loading ?s2 = 0" if "isDisposed ?s2"
  proof -
    from that f have "isDisposed s" by simp
    with inv l have "\<forall>t. \<not> is_pending s t" by (simp add: timer_inv_def inv_post_def)
    with f show ?thesis by (simp add: is_pending_same [OF f(1)])
  qed
  show ?thesis
    unfolding load_resume_def by (rule timer_inv_clearUnreadAfterDelay [OF inv2 d])
qed

lemma timer_inv_unawaited: "timer_inv s \<Longrightarrow> timer_inv (unawaited c s)"
  by (erule timer_inv_cong) (auto simp: unawaited_def perform_def split: completion.splits)

lemma timer_inv_on_pick: "timer_inv s \<Longrightarrow> timer_inv (on_pick c s)"
  by (erule timer_inv_cong)
    (auto simp: on_pick_def disposeTracked_def new_CallViewModel_def track_def perform_def
      emitChange_def Let_def split: option.splits)

lemma timer_inv_after_elapsed:
  assumes inv: "timer_inv s" and t: "t < length (timers s)"
    and g: "snd (timers s ! t) = AwaitElapsed" "fst (timers s ! t) \<noteq> Pending"
  shows "timer_inv (snd (after_elapsed t (if fst (timers s ! t) = Elapsed then Resolved () else Rejected AbortError) s))"
  by (rule timer_inv_phase [OF inv t g(2), where ph = "if fst (timers s ! t) = Elapsed then AwaitClearUnread else Finished"])
    (use g in \<open>auto simp: after_elapsed_def set_phase_def perform_def\<close>)

lemma timer_inv_after_clearUnread:
  assumes inv: "timer_inv s" and t: "t < length (timers s)"
    and g: "snd (timers s ! t) = AwaitClearUnread"
  shows "timer_inv (snd (after_clearUnread t r s))"
proof -
  have "timer s t = Some (fst (timers s ! t), AwaitClearUnread)"
    using t g by (cases "timers s ! t") (simp add: timer_def)
  with inv have "fst (timers s ! t) = Elapsed" unfolding timer_inv_def inv_phase_def by blast
  then have np: "fst (timers s ! t) \<noteq> Pending" by simp
  show ?thesis
    by (rule timer_inv_phase [OF inv t np, where ph = Finished])
      (use g in \<open>auto simp: after_clearUnread_def set_phase_def split: outcome.splits\<close>)
qed


lemma timer_inv_to_disposed:
  assumes inv: "timer_inv s" and d: "isDisposed s'" and l: "loading s' = loading s"
    and tr: "set (trace s) \<subseteq> set (trace s')" and ph: "inv_phase s'"
    and p: "\<And>u. is_pending s' u \<Longrightarrow> is_pending s u \<and> clearUnreadTimout s \<noteq> Some u"
  shows "timer_inv s'"
proof -
  have lo: "inv_load s'"
    using inv l tr by (auto simp: timer_inv_def inv_load_def)
  have v: "inv_live s'" using d by (simp add: inv_live_def)
  have q: "inv_post s'"
  proof (cases "isDisposed s")
    case True
    with inv have "(\<forall>t u. is_pending s t \<and> is_pending s u \<longrightarrow> t = u) \<and>
                   (0 < loading s \<longrightarrow> (\<forall>t. \<not> is_pending s t))"
      by (simp add: timer_inv_def inv_post_def)
    with p l show ?thesis unfolding inv_post_def by metis
  next
    case False
    have "\<not> is_pending s' u" for u
    proof
      assume "is_pending s' u"
      from p [OF this] timer_inv_pending_ref [OF inv False, of u] show False by simp
    qed
    then show ?thesis by (simp add: inv_post_def)
  qed
  from lo ph v q show ?thesis by (simp add: timer_inv_def)
qed

lemma timer_inv_dispose: "timer_inv s \<Longrightarrow> timer_inv (dispose s)"
proof -
  assume inv: "timer_inv s"
  have d: "isDisposed (dispose s)" and l: "loading (dispose s) = loading s"
    and tr: "set (trace s) \<subseteq> set (trace (dispose s))"
    by (auto simp: dispose_def super_dispose_def abort_timeout_def perform_def Let_def
        split: option.splits)
  from inv have ph: "inv_phase s" by (simp add: timer_inv_def)
  show ?thesis
  proof (cases "\<exists>t. clearUnreadTimout s = Some t \<and> is_pending s t")
    case True
    then obtain t where t: "clearUnreadTimout s = Some t" "is_pending s t" by blast
    then have ts: "timers (dispose s) = (timers s)[t := (Aborted, snd (timers s ! t))]"
      by (simp add: dispose_def super_dispose_def abort_timeout_def perform_def Let_def
          is_pending_def)
    have cur: "timer s t = Some (Pending, snd (timers s ! t))"
      using t(2) by (cases "timers s ! t") (simp add: timer_def is_pending_def)
    with ph have "snd (timers s ! t) = AwaitElapsed" unfolding inv_phase_def by blast
    with ph have ph': "inv_phase (dispose s)"
      unfolding inv_phase_def by (auto simp: timer_update [OF ts])
    show ?thesis
      by (rule timer_inv_to_disposed [OF inv d l tr ph'])
        (use t in \<open>simp add: is_pending_update [OF ts]\<close>)
  next
    case False
    then have ts: "timers (dispose s) = timers s"
      by (auto simp: dispose_def super_dispose_def abort_timeout_def perform_def Let_def
          is_pending_def split: option.splits)
    from ph have ph': "inv_phase (dispose s)"
      unfolding inv_phase_def timer_same [OF ts] .
    show ?thesis
      by (rule timer_inv_to_disposed [OF inv d l tr ph'])
        (use False in \<open>auto simp: is_pending_same [OF ts]\<close>)
  qed
qed

lemma timer_inv_step: "timer_inv s \<Longrightarrow> admissible s e \<Longrightarrow> timer_inv (step e s)"
proof (cases e)
  case CallLoad
  assume "timer_inv s" "admissible s e"
  then show ?thesis using CallLoad by (simp add: timer_inv_load_begin)
next
  case (OpenTimelineSettled r)
  assume "timer_inv s"
  then show ?thesis using OpenTimelineSettled timer_inv_load_resume [of s r] by auto
next
  case CallFocus
  assume "timer_inv s" "admissible s e"
  then show ?thesis using CallFocus timer_inv_clearUnreadAfterDelay [of s] by (simp add: focus_def)
next
  case (TimerFires t)
  assume "timer_inv s"
  then show ?thesis using TimerFires by (simp add: timer_inv_timer_fires)
next
  case (ElapsedSettled t)
  assume inv: "timer_inv s"
  show ?thesis
  proof (cases "t < length (timers s) \<and> snd (timers s ! t) = AwaitElapsed \<and> fst (timers s ! t) \<noteq> Pending")
    case True
    then have "timer_inv (snd (after_elapsed t (if fst (timers s ! t) = Elapsed then Resolved () else Rejected AbortError) s))"
      using inv by (intro timer_inv_after_elapsed) simp_all
    then show ?thesis using ElapsedSettled True
      by (auto simp: timer_inv_unawaited split: prod.splits option.splits)
  next
    case False
    with inv ElapsedSettled show ?thesis by auto
  qed
next
  case (ClearUnreadSettled t r)
  assume inv: "timer_inv s"
  show ?thesis
  proof (cases "t < length (timers s) \<and> snd (timers s ! t) = AwaitClearUnread")
    case True
    then have "timer_inv (snd (after_clearUnread t r s))"
      using inv by (intro timer_inv_after_clearUnread) simp_all
    then show ?thesis using ClearUnreadSettled True
      by (auto simp: timer_inv_unawaited split: prod.splits)
  next
    case False
    with inv ClearUnreadSettled show ?thesis by auto
  qed
next
  case (PickEmits c)
  assume "timer_inv s"
  then show ?thesis using PickEmits by (simp add: timer_inv_on_pick)
next
  case CallDispose
  assume "timer_inv s"
  then show ?thesis using CallDispose by (simp add: timer_inv_dispose)
qed

lemma timer_inv_run: "timer_inv s \<Longrightarrow> lifecycle s es \<Longrightarrow> timer_inv (run es s)"
  by (induction es arbitrary: s) (simp_all add: timer_inv_step)

lemma timer_inv_constructor: "timer_inv (constructor r picked)"
  unfolding timer_inv_def inv_load_def inv_phase_def inv_live_def inv_post_def
  by (auto simp: constructor_def setupCallViewModel_def new_CallViewModel_def track_def
      perform_def Let_def timer_def is_pending_def split: option.splits)

lemma unique_filter_upt:
  "(\<forall>i j. P i \<and> P j \<longrightarrow> i = j) \<Longrightarrow> length (filter P [0..<n]) \<le> 1"
proof -
  assume u: "\<forall>i j. P i \<and> P j \<longrightarrow> i = j"
  have d: "distinct (filter P [0..<n])" by simp
  show ?thesis
  proof (cases "filter P [0..<n]")
    case Nil
    then show ?thesis by simp
  next
    case (Cons a xs)
    have "xs = []"
    proof (cases xs)
      case Nil
      then show ?thesis .
    next
      case (Cons b ys)
      with \<open>filter P [0..<n] = a # xs\<close> have ab: "filter P [0..<n] = a # b # ys" by simp
      then have "a \<in> set (filter P [0..<n])" "b \<in> set (filter P [0..<n])" by simp_all
      then have "P a" "P b" by simp_all
      with u have "a = b" by blast
      with d ab show ?thesis by simp
    qed
    with Cons show ?thesis by simp
  qed
qed

lemma timer_inv_pending: "timer_inv s \<Longrightarrow> length (pending s) \<le> 1"
  unfolding pending_def
  by (rule unique_filter_upt) (blast dest: timer_inv_pending_unique)


text \<open>
  Within the life of a view model as the spec describes it, at most one unread-clear
  timeout is pending at any time, and \<open>focus()\<close> while one is pending changes nothing.
  \<open>_clearUnreadAfterDelay\<close> creates a timeout exactly when the room is not archived and
  no timeout reference is held, and holds the new one. The reference is set to null when
  \<open>clearUnread()\<close> has resolved, and by \<open>dispose()\<close>.
\<close>

lemma timeouts_within_lifecycle:
  assumes "lifecycle (constructor r picked) es"
  shows "length (pending (run es (constructor r picked))) \<le> 1 \<and>
         (\<not> isDisposed (run es (constructor r picked)) \<and> pending (run es (constructor r picked)) \<noteq> [] \<longrightarrow>
            focus (run es (constructor r picked)) = run es (constructor r picked)) \<and>
         (isArchived (room s) \<or> clearUnreadTimout s \<noteq> None \<longrightarrow> clearUnreadAfterDelay s = s) \<and>
         (\<not> isArchived (room s) \<and> clearUnreadTimout s = None \<longrightarrow>
            timers (clearUnreadAfterDelay s) = timers s @ [(Pending, AwaitElapsed)] \<and>
            clearUnreadTimout (clearUnreadAfterDelay s) = Some (length (timers s))) \<and>
         clearUnreadTimout (snd (after_clearUnread t (Resolved ()) s)) = None \<and>
         clearUnreadTimout (dispose s) = None"
proof -
  let ?S = "run es (constructor r picked)"
  have inv: "timer_inv ?S"
    using assms by (intro timer_inv_run timer_inv_constructor)
  then have one: "length (pending ?S) \<le> 1" by (rule timer_inv_pending)
  have noop: "focus ?S = ?S" if d: "\<not> isDisposed ?S" and p: "pending ?S \<noteq> []"
  proof -
    from p obtain u where "u \<in> set (pending ?S)" by (cases "pending ?S") auto
    then have "is_pending ?S u" by (simp add: pending_def)
    from timer_inv_pending_ref [OF inv d this] show ?thesis
      by (simp add: focus_def clearUnreadAfterDelay_def)
  qed
  have guard: "clearUnreadAfterDelay s = s" if "isArchived (room s) \<or> clearUnreadTimout s \<noteq> None"
    using that by (auto simp: clearUnreadAfterDelay_def)
  have new: "timers (clearUnreadAfterDelay s) = timers s @ [(Pending, AwaitElapsed)] \<and>
             clearUnreadTimout (clearUnreadAfterDelay s) = Some (length (timers s))"
    if "\<not> isArchived (room s) \<and> clearUnreadTimout s = None"
    using that by (simp add: clearUnreadAfterDelay_def createTimeout_def perform_def Let_def)
  have null1: "clearUnreadTimout (snd (after_clearUnread t (Resolved ()) s)) = None"
    by (simp add: after_clearUnread_def set_phase_def)
  have null2: "clearUnreadTimout (dispose s) = None"
    by (simp add: dispose_def Let_def split: option.splits)
  from one noop guard new null1 null2 show ?thesis by blast
qed


text \<open>
  C6: the view model is to set its timeout reference to null after the natural elapse,
  as it does on abort. The code does so only when \<open>clearUnread()\<close> resolves: when
  \<open>focus()\<close> is called, the timeout elapses and \<open>clearUnread()\<close> then fails, line 105
  is skipped. The invocation has ended (with an unhandled rejection), no timeout is
  pending, and the reference still holds the elapsed timeout, so that \<open>focus()\<close> changes
  nothing from then on.
\<close>

theorem stale_timeout_after_failed_clearUnread:
  "lifecycle (constructor open_room None)
     [CallFocus, TimerFires 0, ElapsedSettled 0, ClearUnreadSettled 0 (Rejected network_error)] \<and>
   run [CallFocus, TimerFires 0, ElapsedSettled 0, ClearUnreadSettled 0 (Rejected network_error)]
       (constructor open_room None)
     = \<lparr>room = open_room, timelineVM = None, composerVM = ComposerViewModel,
        clearUnreadTimout = Some 0, callViewModel = None, disposables = [PickSubscription],
        isDisposed = False, loading = 0, timers = [(Elapsed, Finished)], heap_next = 0,
        trace = [Created ComposerViewModel, Created PickSubscription, CreateTimeout 0,
                 ClearUnread 0, UnhandledRejection network_error]\<rparr> \<and>
   pending (run [CallFocus, TimerFires 0, ElapsedSettled 0, ClearUnreadSettled 0 (Rejected network_error)]
              (constructor open_room None)) = [] \<and>
   focus (run [CallFocus, TimerFires 0, ElapsedSettled 0, ClearUnreadSettled 0 (Rejected network_error)]
            (constructor open_room None))
     = run [CallFocus, TimerFires 0, ElapsedSettled 0, ClearUnreadSettled 0 (Rejected network_error)]
         (constructor open_room None)"
  by (simp add: model_defs open_room_def pending_def is_pending_def network_error_def js_def)


lemma is_pending_dispose:
  assumes "is_pending (dispose s) u"
  shows "is_pending s u \<and> clearUnreadTimout s \<noteq> Some u"
proof (cases "\<exists>t. clearUnreadTimout s = Some t \<and> is_pending s t")
  case True
  then obtain t where t: "clearUnreadTimout s = Some t" "is_pending s t" by blast
  then have ts: "timers (dispose s) = (timers s)[t := (Aborted, snd (timers s ! t))]"
    by (simp add: dispose_def super_dispose_def abort_timeout_def perform_def Let_def
        is_pending_def)
  have "Aborted \<noteq> Pending" by simp
  from assms t show ?thesis by (simp add: is_pending_update [OF ts \<open>Aborted \<noteq> Pending\<close>])
next
  case False
  then have ts: "timers (dispose s) = timers s"
    by (auto simp: dispose_def super_dispose_def abort_timeout_def perform_def Let_def
        is_pending_def split: option.splits)
  from assms False show ?thesis by (auto simp: is_pending_same [OF ts])
qed

lemma nothing_pending_after_dispose:
  assumes inv: "timer_inv s" and d: "\<not> isDisposed s"
  shows "pending (dispose s) = []"
proof -
  have "\<not> is_pending (dispose s) u" for u
  proof
    assume "is_pending (dispose s) u"
    from is_pending_dispose [OF this] timer_inv_pending_ref [OF inv d, of u] show False by simp
  qed
  then show ?thesis by (simp add: pending_def)
qed

text \<open>
  C4, as amended: in every state a room view model can reach, \<open>dispose()\<close> disposes the
  tracked children in reverse order of tracking, then calls \<open>room.off\<close> for the change
  listener, calls \<open>release()\<close> exactly when the room is archived, and aborts the timeout
  it holds, setting the reference to null; when \<open>dispose()\<close> is called for the first time
  in the life of the view model, no unread-clear timeout is pending afterwards.
  Afterwards nothing is tracked, and every child that was ever created has been disposed
  exactly once (in particular the timeline and the call view model, if present), except
  the composer: it is not tracked and \<open>dispose()\<close> does not dispose it.
\<close>

theorem dispose_effects:
  fixes es r picked
  defines "s \<equiv> run es (constructor r picked)"
  shows "trace (dispose s)
           = trace s @ map Disposed (rev (disposables s)) @ [RoomOff]
             @ (if isArchived (room s) then [RoomRelease] else [])
             @ (case clearUnreadTimout s of None \<Rightarrow> [] | Some t \<Rightarrow> [AbortTimeout t]) \<and>
         clearUnreadTimout (dispose s) = None \<and>
         (\<forall>t. clearUnreadTimout s = Some t \<longrightarrow>
              t < length (timers (dispose s)) \<and> fst (timers (dispose s) ! t) \<noteq> Pending) \<and>
         (lifecycle (constructor r picked) es \<and> \<not> isDisposed s \<longrightarrow> pending (dispose s) = []) \<and>
         disposables (dispose s) = [] \<and>
         (\<forall>c. Created c \<in> set (trace s) \<longrightarrow>
              disposals (trace (dispose s)) c = (if is_composer c then 0 else 1)) \<and>
         (\<forall>v. timelineVM s = Some v \<or> callViewModel s = Some v \<longrightarrow>
              disposals (trace (dispose s)) v = 1) \<and>
         disposals (trace (dispose s)) (composerVM s) = 0"
proof -
  have inv: "tracked_inv s"
    unfolding s_def by (rule tracked_inv_run [OF tracked_inv_constructor])
  have tr: "trace (dispose s)
           = trace s @ map Disposed (rev (disposables s)) @ [RoomOff]
             @ (if isArchived (room s) then [RoomRelease] else [])
             @ (case clearUnreadTimout s of None \<Rightarrow> [] | Some t \<Rightarrow> [AbortTimeout t])"
    by (simp add: dispose_def super_dispose_def abort_timeout_def perform_def Let_def
        split: option.splits)
  have d: "disposals (trace (dispose s)) c
             = disposals (trace s) c + (if c \<in> set (disposables s) then 1 else 0)" for c
    using inv by (simp add: tr tracked_inv_def disposals_map_Disposed split: option.splits)
  have i1: "disposals (trace s) c = 0 \<and> \<not> is_composer c" if "c \<in> set (disposables s)" for c
    using inv that by (simp add: tracked_inv_def)
  have i2: "is_composer c \<or> c \<in> set (disposables s) \<or> disposals (trace s) c = 1"
    if "Created c \<in> set (trace s)" for c
    using inv that by (simp add: tracked_inv_def)
  have i3: "0 < disposals (trace s) c \<longrightarrow> \<not> is_composer c" for c
    using inv by (simp add: tracked_inv_def)
  have ref: "clearUnreadTimout (dispose s) = None"
    by (simp add: dispose_def Let_def split: option.splits)
  have ab: "t < length (timers (dispose s)) \<and> fst (timers (dispose s) ! t) \<noteq> Pending"
    if "clearUnreadTimout s = Some t" for t
  proof -
    from inv that have "t < length (timers s)" by (simp add: tracked_inv_def)
    with that show ?thesis
      by (simp add: dispose_def super_dispose_def abort_timeout_def perform_def Let_def)
  qed
  have np: "pending (dispose s) = []"
    if "lifecycle (constructor r picked) es \<and> \<not> isDisposed s"
  proof -
    from that have "timer_inv s"
      unfolding s_def by (intro timer_inv_run timer_inv_constructor) simp
    with that show ?thesis by (intro nothing_pending_after_dispose) simp_all
  qed
  have ds: "disposables (dispose s) = []"
    by (simp add: dispose_def super_dispose_def abort_timeout_def perform_def Let_def
        split: option.splits)
  have created: "disposals (trace (dispose s)) c = (if is_composer c then 0 else 1)"
    if "Created c \<in> set (trace s)" for c
  proof (cases "c \<in> set (disposables s)")
    case True
    with i1 [of c] show ?thesis by (simp add: d)
  next
    case False
    show ?thesis
    proof (cases "is_composer c")
      case True
      with i3 [of c] have "disposals (trace s) c = 0" by auto
      with True False show ?thesis by (simp add: d)
    next
      case nc: False
      with i2 [OF that] False have "disposals (trace s) c = 1" by simp
      with nc False show ?thesis by (simp add: d)
    qed
  qed
  have fields: "disposals (trace (dispose s)) v = 1"
    if "timelineVM s = Some v \<or> callViewModel s = Some v" for v
  proof -
    from inv that have "Created v \<in> set (trace s) \<and> \<not> is_composer v"
      unfolding tracked_inv_def by blast
    with created [of v] show ?thesis by simp
  qed
  have comp: "disposals (trace (dispose s)) (composerVM s) = 0"
  proof -
    have c: "is_composer (composerVM s)" using inv by (simp add: tracked_inv_def)
    with i3 [of "composerVM s"] have "disposals (trace s) (composerVM s) = 0" by auto
    moreover from c i1 [of "composerVM s"] have "composerVM s \<notin> set (disposables s)" by blast
    ultimately show ?thesis by (simp add: d)
  qed
  from tr ref ab np ds created fields comp show ?thesis by blast
qed

theorem dispose_effects_witness:
  "lifecycle (constructor open_room (Some call_a)) [CallLoad, OpenTimelineSettled (Resolved ())] \<and>
   \<not> isDisposed (run [CallLoad, OpenTimelineSettled (Resolved ())] (constructor open_room (Some call_a))) \<and>
   pending (run [CallLoad, OpenTimelineSettled (Resolved ())] (constructor open_room (Some call_a))) = [0] \<and>
   pending (dispose (run [CallLoad, OpenTimelineSettled (Resolved ())] (constructor open_room (Some call_a)))) = [] \<and>
   clearUnreadTimout (run [CallLoad, OpenTimelineSettled (Resolved ())] (constructor open_room (Some call_a))) = Some 0 \<and>
   fst (timers (dispose (run [CallLoad, OpenTimelineSettled (Resolved ())] (constructor open_room (Some call_a)))) ! 0) \<noteq> Pending \<and>
   timelineVM (run [CallLoad, OpenTimelineSettled (Resolved ())] (constructor open_room (Some call_a)))
     = Some (TimelineViewModel 1) \<and>
   callViewModel (run [CallLoad, OpenTimelineSettled (Resolved ())] (constructor open_room (Some call_a)))
     = Some (CallViewModel 0 call_a) \<and>
   Created PickSubscription \<in> set (trace (run [CallLoad, OpenTimelineSettled (Resolved ())] (constructor open_room (Some call_a)))) \<and>
   disposals (trace (dispose (run [CallLoad, OpenTimelineSettled (Resolved ())] (constructor open_room (Some call_a)))))
     (TimelineViewModel 1) = 1 \<and>
   disposals (trace (dispose (run [CallLoad, OpenTimelineSettled (Resolved ())] (constructor open_room (Some call_a)))))
     (CallViewModel 0 call_a) = 1 \<and>
   disposals (trace (dispose (run [CallLoad, OpenTimelineSettled (Resolved ())] (constructor open_room (Some call_a)))))
     PickSubscription = 1"
proof -
  define s where "s = run [CallLoad, OpenTimelineSettled (Resolved ())] (constructor open_room (Some call_a))"
  have s: "s = \<lparr>room = open_room, timelineVM = Some (TimelineViewModel 1),
      composerVM = ComposerViewModel, clearUnreadTimout = Some 0,
      callViewModel = Some (CallViewModel 0 call_a),
      disposables = [PickSubscription, CallViewModel 0 call_a, TimelineViewModel 1],
      isDisposed = False, loading = 0, timers = [(Pending, AwaitElapsed)], heap_next = 2,
      trace = [Created ComposerViewModel, Created PickSubscription,
               Created (CallViewModel 0 call_a), RoomOn, OpenTimeline,
               Created (TimelineViewModel 1), EmitChange (Some (js ''timelineViewModel'')),
               CreateTimeout 0]\<rparr>"
    unfolding s_def by (simp add: model_defs open_room_def)
  have l: "lifecycle (constructor open_room (Some call_a)) [CallLoad, OpenTimelineSettled (Resolved ())]"
    by (simp add: model_defs open_room_def)
  have nd: "\<not> isDisposed s" by (simp only: s) simp
  have p: "pending s = [0]" by (simp only: s) (simp add: pending_def is_pending_def)
  have a: "clearUnreadTimout s = Some 0" by (simp only: s) simp
  have b: "timelineVM s = Some (TimelineViewModel 1)" by (simp only: s) simp
  have c: "callViewModel s = Some (CallViewModel 0 call_a)" by (simp only: s) simp
  have d: "Created PickSubscription \<in> set (trace s)" by (simp only: s) simp
  note T = dispose_effects [of "[CallLoad, OpenTimelineSettled (Resolved ())]" open_room "Some call_a",
      folded s_def]
  from T l nd have q: "pending (dispose s) = []" by blast
  from T a have e: "fst (timers (dispose s) ! 0) \<noteq> Pending" by blast
  from T b have f: "disposals (trace (dispose s)) (TimelineViewModel 1) = 1" by blast
  from T c have g: "disposals (trace (dispose s)) (CallViewModel 0 call_a) = 1" by blast
  from T d have "disposals (trace (dispose s)) PickSubscription
                   = (if is_composer PickSubscription then 0 else 1)" by blast
  then have h: "disposals (trace (dispose s)) PickSubscription = 1" by simp
  from l nd p q a b c d e f g h show ?thesis unfolding s_def by blast
qed


theorem dispose_leaves_composer_counterexample:
  "composerVM (constructor open_room None) = ComposerViewModel \<and>
   trace (dispose (constructor open_room None))
     = [Created ComposerViewModel, Created PickSubscription, Disposed PickSubscription, RoomOff] \<and>
   disposals (trace (dispose (constructor open_room None))) ComposerViewModel = 0"
  by (simp add: model_defs open_room_def)

lemma map_of_del: "map_of (del k xs) = (map_of xs)(k := None)"
  by (induction xs) (auto simp: del_def fun_eq_iff)

lemma map_of_upd: "map_of (upd k v xs) = (map_of xs)(k \<mapsto> v)"
  by (auto simp: upd_def map_of_del fun_eq_iff)

lemma keys_del: "fst ` set (del k xs) = fst ` set xs - {k}"
  by (auto simp: del_def image_iff)

lemma keys_upd: "fst ` set (upd k v xs) = insert k (fst ` set xs)"
  by (auto simp: upd_def keys_del)

lemma min_key_keys:
  "min_key xs = (if fst ` set xs = {} then None else Some (Min (fst ` set xs)))"
  by (simp add: min_key_def)

lemma keys_dom: "fst ` set xs = dom (map_of xs)"
  by (simp add: dom_map_of_conv_image_fst)


lemma min_key_upd:
  "min_key (upd k v xs) = (case min_key xs of None \<Rightarrow> Some k | Some p \<Rightarrow> if k < p then Some k else Some p)"
proof (cases "fst ` set xs = {}")
  case True
  then show ?thesis by (simp add: min_key_keys keys_upd)
next
  case False
  have fin: "finite (fst ` set xs)" by simp
  have "Min (insert k (fst ` set xs)) = min k (Min (fst ` set xs))"
    using fin False by (rule Min_insert)
  moreover have "min k (Min (fst ` set xs)) = (if k < Min (fst ` set xs) then k else Min (fst ` set xs))"
    by (auto simp: min_def)
  ultimately show ?thesis
    using False by (simp add: min_key_keys keys_upd)
qed

lemma min_key_del:
  assumes "min_key xs \<noteq> Some k"
  shows "min_key (del k xs) = min_key xs"
proof (cases "fst ` set xs = {}")
  case True
  then show ?thesis by (simp add: min_key_keys keys_del)
next
  case False
  let ?D = "fst ` set xs"
  have fin: "finite ?D" by simp
  from assms False have ne: "Min ?D \<noteq> k" by (simp add: min_key_keys)
  have m: "Min ?D \<in> ?D" using fin False by (rule Min_in)
  with ne have in': "Min ?D \<in> ?D - {k}" by simp
  have "Min (?D - {k}) = Min ?D"
  proof (rule Min_eqI)
    show "finite (?D - {k})" using fin by simp
    show "Min ?D \<le> y" if "y \<in> ?D - {k}" for y using that fin by simp
    show "Min ?D \<in> ?D - {k}" by (rule in')
  qed
  moreover from in' have "?D - {k} \<noteq> {}" by blast
  ultimately show ?thesis using False by (simp add: min_key_keys keys_del)
qed

lemma min_key_upd_present:
  assumes "map_of xs k \<noteq> None"
  shows "min_key (upd k v xs) = min_key xs"
proof -
  from assms have "k \<in> fst ` set xs" by (simp add: keys_dom dom_def)
  then have "insert k (fst ` set xs) = fst ` set xs" by blast
  then show ?thesis by (simp add: min_key_keys keys_upd)
qed

lemma pick_inv_insert:
  assumes inv: "pick_inv P (coll, st)" and new: "map_of coll k = None"
  shows "pick_inv P (upd k v coll, pick_insert P k v st)"
  using inv new unfolding pick_inv_def pick_insert_def
  by (auto simp: map_of_upd min_key_upd)

lemma pick_inv_remove:
  assumes inv: "pick_inv P (coll, st)"
  shows "pick_inv P (del k coll, pick_remove k st)"
  using inv unfolding pick_inv_def pick_remove_def Let_def
  by (auto simp: map_of_del min_key_del)

lemma pick_inv_update:
  assumes inv: "pick_inv P (coll, st)" and old: "map_of coll k \<noteq> None"
  shows "pick_inv P (upd k v coll, pick_update P k v st)"
proof -
  from inv have w: "map_of (working st) k' =
      (case map_of coll k' of Some c \<Rightarrow> if P c then Some c else None | None \<Rightarrow> None)" for k'
    by (simp add: pick_inv_def)
  from inv have key: "pick_key st = min_key (working st)" by (simp add: pick_inv_def)
  show ?thesis
  proof (cases "map_of (working st) k \<noteq> None")
    case was: True
    show ?thesis
    proof (cases "P v")
      case True
      with was w key show ?thesis
        unfolding pick_inv_def pick_update_def Let_def
        by (auto simp: map_of_upd min_key_upd_present)
    next
      case False
      with was w key show ?thesis
        unfolding pick_inv_def pick_update_def pick_remove_def Let_def
        by (auto simp: map_of_upd map_of_del min_key_del)
    qed
  next
    case was: False
    show ?thesis
    proof (cases "P v")
      case True
      with was w key show ?thesis
        unfolding pick_inv_def pick_update_def pick_insert_def Let_def
        by (auto simp: map_of_upd min_key_upd)
    next
      case False
      with was w key show ?thesis
        unfolding pick_inv_def pick_update_def Let_def
        by (auto simp: map_of_upd)
    qed
  qed
qed

lemma pick_inv_mutate: "pick_inv P cs \<Longrightarrow> pick_inv P (mutate P cs m)"
  by (cases cs; cases m) (auto simp: pick_inv_insert pick_inv_remove pick_inv_update)

lemma pick_inv_foldl: "pick_inv P cs \<Longrightarrow> pick_inv P (foldl (mutate P) cs ms)"
  by (induction ms arbitrary: cs) (simp_all add: pick_inv_mutate)

lemma pick_inv_no_calls: "pick_inv P no_calls"
  by (simp add: pick_inv_def no_calls_def min_key_def)

lemma pick_inv_get:
  assumes "pick_inv P (coll, st)"
  shows "pick_get st = lowest_visible P coll"
proof -
  from assms have w: "map_of (working st) k' =
      (case map_of coll k' of Some c \<Rightarrow> if P c then Some c else None | None \<Rightarrow> None)" for k'
    by (simp add: pick_inv_def)
  from assms have key: "pick_key st = min_key (working st)" by (simp add: pick_inv_def)
  have vis: "set (visible_keys P coll) = fst ` set (working st)"
  proof -
    have "set (visible_keys P coll) = {k. \<exists>c. map_of coll k = Some c \<and> P c}"
      by (auto simp: visible_keys_def keys_dom split: option.splits)
    also have "\<dots> = dom (map_of (working st))"
      by (auto simp: dom_def w split: option.splits if_splits)
    finally show ?thesis by (simp add: keys_dom)
  qed
  show ?thesis
  proof (cases "working st = []")
    case True
    with vis have "visible_keys P coll = []" by simp
    with True key show ?thesis by (simp add: pick_get_def lowest_visible_def min_key_def)
  next
    case False
    let ?m = "Min (fst ` set (working st))"
    from False have ne: "fst ` set (working st) \<noteq> {}" by simp
    have "?m \<in> fst ` set (working st)" using ne by (intro Min_in) simp_all
    then have "?m \<in> dom (map_of (working st))" by (simp add: keys_dom)
    then obtain c where c: "map_of (working st) ?m = Some c" by blast
    with w [of ?m] have "map_of coll ?m = Some c"
      by (auto split: option.splits if_splits)
    moreover from False vis have "visible_keys P coll \<noteq> []" by auto
    ultimately show ?thesis
      using False key c vis by (simp add: pick_get_def lowest_visible_def min_key_def)
  qed
qed

text \<open>
  C1: after every mutation of a sequence of inserts, removes and updates on the call
  collection, the value of the pick observable is the call with the lowest key among the
  calls of the collection that satisfy the filter of \<open>_setupCallViewModel\<close> (the call is
  of this room and has been joined), and it is absent when no call satisfies it.
\<close>

theorem pick_is_lowest_visible_call:
  "pick_get (snd (foldl (mutate (call_filter s)) no_calls (take n ms)))
     = lowest_visible (call_filter s) (fst (foldl (mutate (call_filter s)) no_calls (take n ms)))"
proof -
  have "pick_inv (call_filter s) (foldl (mutate (call_filter s)) no_calls (take n ms))"
    by (intro pick_inv_foldl pick_inv_no_calls)
  then show ?thesis
    by (cases "foldl (mutate (call_filter s)) no_calls (take n ms)") (simp add: pick_inv_get)
qed

theorem pick_is_lowest_visible_call_witness:
  "pick_get (snd (foldl (mutate (call_filter (constructor open_room None))) no_calls
                    [Insert (5::nat) call_a, Insert 2 call_b]))
     = Some call_b \<and>
   pick_get (snd (foldl (mutate (call_filter (constructor open_room None))) no_calls
                    [Insert (5::nat) call_a, Insert 2 call_b, Remove 2]))
     = Some call_a \<and>
   pick_get (snd (foldl (mutate (call_filter (constructor open_room None))) no_calls
                    [Insert (5::nat) call_a, Insert 2 call_b, Remove 2, Remove 5]))
     = None \<and>
   pick_get (snd (foldl (mutate (call_filter (constructor open_room None))) no_calls
                    [Insert (5::nat) call_a, Insert 2 call_b, Update 2 (call_b\<lparr>hasJoined := False\<rparr>)]))
     = Some call_a"
proof -
  have f: "call_filter (constructor open_room None) c \<longleftrightarrow> roomId c = js ''!room'' \<and> hasJoined c" for c
    by (simp add: call_filter_def model_defs open_room_def)
  have ab: "hasJoined call_a" "hasJoined call_b" "roomId call_a = js ''!room''"
    "roomId call_b = js ''!room''"
    by (simp_all add: call_a_def call_b_def)
  note defs = mutate.simps no_calls_def pick_insert_def pick_remove_def pick_update_def upd_def
    del_def min_key_def lowest_visible_def visible_keys_def Let_def
  have a: "lowest_visible (call_filter (constructor open_room None))
             (fst (foldl (mutate (call_filter (constructor open_room None))) no_calls
                     [Insert (5::nat) call_a, Insert 2 call_b])) = Some call_b"
    by (simp add: defs f ab)
  have b: "lowest_visible (call_filter (constructor open_room None))
             (fst (foldl (mutate (call_filter (constructor open_room None))) no_calls
                     [Insert (5::nat) call_a, Insert 2 call_b, Remove 2])) = Some call_a"
    by (simp add: defs f ab)
  have c: "lowest_visible (call_filter (constructor open_room None))
             (fst (foldl (mutate (call_filter (constructor open_room None))) no_calls
                     [Insert (5::nat) call_a, Insert 2 call_b, Remove 2, Remove 5])) = None"
    by (simp add: defs f ab)
  have d: "lowest_visible (call_filter (constructor open_room None))
             (fst (foldl (mutate (call_filter (constructor open_room None))) no_calls
                     [Insert (5::nat) call_a, Insert 2 call_b, Update 2 (call_b\<lparr>hasJoined := False\<rparr>)]))
            = Some call_a"
    by (simp add: defs f ab)
  from a b c d
    pick_is_lowest_visible_call [of "constructor open_room None" 2 "[Insert (5::nat) call_a, Insert 2 call_b, Remove 2, Remove 5]"]
    pick_is_lowest_visible_call [of "constructor open_room None" 3 "[Insert (5::nat) call_a, Insert 2 call_b, Remove 2, Remove 5]"]
    pick_is_lowest_visible_call [of "constructor open_room None" 4 "[Insert (5::nat) call_a, Insert 2 call_b, Remove 2, Remove 5]"]
    pick_is_lowest_visible_call [of "constructor open_room None" 3
      "[Insert (5::nat) call_a, Insert 2 call_b, Update 2 (call_b\<lparr>hasJoined := False\<rparr>)]"]
  show ?thesis by simp
qed



lemma media_sends_append [simp]: "media_sends (xs @ ys) = media_sends xs @ media_sends ys"
  by (simp add: media_sends_def)

lemma media_sends_Nil [simp]: "media_sends [] = []"
  by (simp add: media_sends_def)

lemma media_sends_Cons [simp]:
  "media_sends (e # es) = (case e of SendMedia ty c a \<Rightarrow> [c] | _ \<Rightarrow> []) @ media_sends es"
  by (simp add: media_sends_def)

lemma console_errors_append [simp]: "console_errors (xs @ ys) = console_errors xs @ console_errors ys"
  by (simp add: console_errors_def)

lemma console_errors_Nil [simp]: "console_errors [] = []"
  by (simp add: console_errors_def)

lemma console_errors_Cons [simp]:
  "console_errors (e # es) = (case e of ConsoleError err \<Rightarrow> [err] | _ \<Rightarrow> []) @ console_errors es"
  by (simp add: console_errors_def)










end
